theory Spec2Isabelle
  imports Main "HOL-Library.Multiset"
begin

section \<open>The batch writer of \<^verbatim>\<open>aioboto3/dynamodb/table.py\<close>\<close>

text \<open>
  The development embeds the class \<^verbatim>\<open>BatchWriter\<close>: its buffer of requests, the
  removal of buffered requests that a new request overwrites, the flush to the client and
  the draining loop of \<^verbatim>\<open>__aexit__\<close>.

  Modelling decisions.
  \<^item> A request is the dictionary \<^verbatim>\<open>{'PutRequest': {'Item': Item}}\<close> or
    \<^verbatim>\<open>{'DeleteRequest': {'Key': Key}}\<close>; both inner dictionaries are never empty, so
    the two branches of \<^verbatim>\<open>_extract_pkey_values\<close> are told apart by the constructor and
    its last line, \<^verbatim>\<open>return None\<close>, is never reached.
  \<^item> A row or key is a Python dictionary, here a map from attribute names to values;
    equality of maps is equality of dictionaries (the order of insertion plays no role).
    Equality of attribute values is equality in the value type \<open>'v\<close>.
  \<^item> The client is outside the repository. It is a parameter: a function from the
    client's own state, the table name and the batch to either an exception or a response,
    and the client's next state. Every call is recorded in the field \<open>sent\<close>, which the
    source does not have: it is the trace of the calls of \<^verbatim>\<open>batch_write_item\<close>.
  \<^item> An operation returns the exception it raised, if any, together with the state it
    leaves behind: the buffer is mutated before an exception reaches the caller.
  \<^item> \<^verbatim>\<open>asyncio.sleep\<close> changes nothing in the writer and is left out; the logger also.
\<close>

subsection \<open>Data\<close>

datatype 'v request =
    PutRequest (Item: "string \<rightharpoonup> 'v")
  | DeleteRequest (Key: "string \<rightharpoonup> 'v")

text \<open>
  Exceptions: a failed dictionary lookup, with the key that was not found, or whatever the
  client raises; the writer never looks into a client's exception, so a name stands for it.
\<close>

type_synonym client_exception = string

datatype error = KeyError string | ClientError client_exception

text \<open>
  What \<^verbatim>\<open>response['UnprocessedItems']\<close> finds in the response: no such entry, the
  value \<^verbatim>\<open>None\<close>, or a dictionary from table names to lists of requests.
\<close>

datatype 'v response =
    NoEntry
  | NoneValue
  | Unprocessed "string \<rightharpoonup> 'v request list"

type_synonym ('v, 'c) batch_write_item =
  "'c \<Rightarrow> string \<Rightarrow> 'v request list \<Rightarrow> (client_exception + 'v response) \<times> 'c"

record ('v, 'c) batch_writer =
  table_name :: string
  client :: 'c
  items_buffer :: "'v request list"
  flush_amount :: int
  overwrite_by_pkeys :: "string list option"
  on_exit_loop_sleep :: int
  sent :: "(string \<times> 'v request list) list"

text \<open>
  \<^verbatim>\<open>__init__\<close>: the buffer starts empty; no call has been made. The source's defaults
  are \<^verbatim>\<open>flush_amount=25\<close>, \<^verbatim>\<open>overwrite_by_pkeys=None\<close> and
  \<^verbatim>\<open>on_exit_loop_sleep=0\<close>; here every argument is given.
\<close>

definition BatchWriter ::
  "string \<Rightarrow> 'c \<Rightarrow> int \<Rightarrow> string list option \<Rightarrow> int \<Rightarrow> ('v, 'c) batch_writer" where
  "BatchWriter tn cl fa pkeys slp =
     \<lparr>table_name = tn, client = cl, items_buffer = [], flush_amount = fa,
      overwrite_by_pkeys = pkeys, on_exit_loop_sleep = slp, sent = []\<rparr>"

subsection \<open>Python's list slices and truth values\<close>

text \<open>\<^verbatim>\<open>xs[:n]\<close> and \<^verbatim>\<open>xs[n:]\<close>; a negative bound counts from the end.\<close>

definition slice_to :: "int \<Rightarrow> 'a list \<Rightarrow> 'a list" where
  "slice_to n xs = (if 0 \<le> n then take (nat n) xs else take (length xs - nat (- n)) xs)"

definition slice_from :: "int \<Rightarrow> 'a list \<Rightarrow> 'a list" where
  "slice_from n xs = (if 0 \<le> n then drop (nat n) xs else drop (length xs - nat (- n)) xs)"

text \<open>\<^verbatim>\<open>if self._overwrite_by_pkeys\<close>: \<^verbatim>\<open>None\<close> and the empty list are false.\<close>

fun truthy :: "string list option \<Rightarrow> bool" where
  "truthy None = False"
| "truthy (Some ks) = (ks \<noteq> [])"

subsection \<open>Extraction of the primary key values\<close>

text \<open>The list comprehension \<^verbatim>\<open>[d[key] for key in keys]\<close>: the first missing key raises.\<close>

fun lookup_all :: "string list \<Rightarrow> (string \<rightharpoonup> 'v) \<Rightarrow> error + 'v list" where
  "lookup_all [] d = Inr []"
| "lookup_all (k # ks) d =
     (case d k of
        None \<Rightarrow> Inl (KeyError k)
      | Some v \<Rightarrow> (case lookup_all ks d of Inl e \<Rightarrow> Inl e | Inr vs \<Rightarrow> Inr (v # vs)))"

fun extract_pkey_values :: "string list \<Rightarrow> 'v request \<Rightarrow> error + 'v list" where
  "extract_pkey_values ks (PutRequest item) = lookup_all ks item"
| "extract_pkey_values ks (DeleteRequest key) = lookup_all ks key"

subsection \<open>Removal of overwritten requests\<close>

text \<open>
  The loop \<^verbatim>\<open>for item in self._items_buffer\<close> of
  \<^verbatim>\<open>_remove_dup_pkeys_request_if_any\<close> walks the list by an index that grows by one in
  every round, whatever the body did to the list, and stops when the index reaches the
  current length. \<^verbatim>\<open>list.remove(item)\<close> deletes the first element equal to \<open>item\<close>.
  The loop has no \<^verbatim>\<open>break\<close>.
\<close>

function remove_dup_loop ::
  "string list \<Rightarrow> 'v list \<Rightarrow> nat \<Rightarrow> 'v request list \<Rightarrow> error option \<times> 'v request list" where
  "remove_dup_loop ks new i buf =
     (if i < length buf then
        (case extract_pkey_values ks (buf ! i) of
           Inl e \<Rightarrow> (Some e, buf)
         | Inr vals \<Rightarrow>
             if vals = new then remove_dup_loop ks new (Suc i) (remove1 (buf ! i) buf)
             else remove_dup_loop ks new (Suc i) buf)
      else (None, buf))"
  by pat_completeness auto
termination
  by (relation "measure (\<lambda>(ks, new, i, buf). length buf - i)") (auto simp: length_remove1)

declare remove_dup_loop.simps [simp del]

definition remove_dup_pkeys_request_if_any ::
  "string list \<Rightarrow> 'v request \<Rightarrow> 'v request list \<Rightarrow> error option \<times> 'v request list" where
  "remove_dup_pkeys_request_if_any ks request buf =
     (case extract_pkey_values ks request of
        Inl e \<Rightarrow> (Some e, buf)
      | Inr pkey_values_new \<Rightarrow> remove_dup_loop ks pkey_values_new 0 buf)"

subsection \<open>Flushing\<close>

definition flush ::
  "('v, 'c) batch_write_item \<Rightarrow> ('v, 'c) batch_writer \<Rightarrow>
     error option \<times> ('v, 'c) batch_writer" where
  "flush bwi st =
     (let items_to_send = slice_to (flush_amount st) (items_buffer st);
          st1 = st\<lparr>items_buffer := slice_from (flush_amount st) (items_buffer st)\<rparr>;
          (r, cl) = bwi (client st1) (table_name st1) items_to_send;
          st2 = st1\<lparr>client := cl, sent := sent st1 @ [(table_name st1, items_to_send)]\<rparr>
      in case r of
           Inl x \<Rightarrow> (Some (ClientError x), st2)
         | Inr response \<Rightarrow>
             (case response of
                NoEntry \<Rightarrow> (Some (KeyError ''UnprocessedItems''), st2)
              | NoneValue \<Rightarrow> (None, st2)
              | Unprocessed unprocessed_items \<Rightarrow>
                  (let item_list =
                         (case unprocessed_items (table_name st2) of
                            None \<Rightarrow> []
                          | Some l \<Rightarrow> l)
                   in (None, st2\<lparr>items_buffer := items_buffer st2 @ item_list\<rparr>))))"

definition flush_if_needed ::
  "('v, 'c) batch_write_item \<Rightarrow> ('v, 'c) batch_writer \<Rightarrow>
     error option \<times> ('v, 'c) batch_writer" where
  "flush_if_needed bwi st =
     (if flush_amount st \<le> int (length (items_buffer st)) then flush bwi st else (None, st))"

subsection \<open>The public operations\<close>

text \<open>
  The first statement of \<^verbatim>\<open>_add_request_and_process\<close>: the scan of the buffer, made
  only when \<^verbatim>\<open>overwrite_by_pkeys\<close> is true. It returns the exception it raised, if any,
  and the buffer it leaves.
\<close>

definition overwrite_scan ::
  "('v, 'c) batch_writer \<Rightarrow> 'v request \<Rightarrow> error option \<times> 'v request list" where
  "overwrite_scan st request =
     (if truthy (overwrite_by_pkeys st)
      then remove_dup_pkeys_request_if_any (the (overwrite_by_pkeys st)) request
             (items_buffer st)
      else (None, items_buffer st))"

definition add_request_and_process ::
  "('v, 'c) batch_write_item \<Rightarrow> 'v request \<Rightarrow> ('v, 'c) batch_writer \<Rightarrow>
     error option \<times> ('v, 'c) batch_writer" where
  "add_request_and_process bwi request st =
     (case overwrite_scan st request of
        (Some e, buf) \<Rightarrow> (Some e, st\<lparr>items_buffer := buf\<rparr>)
      | (None, buf) \<Rightarrow> flush_if_needed bwi (st\<lparr>items_buffer := buf @ [request]\<rparr>))"

definition put_item ::
  "('v, 'c) batch_write_item \<Rightarrow> (string \<rightharpoonup> 'v) \<Rightarrow> ('v, 'c) batch_writer \<Rightarrow>
     error option \<times> ('v, 'c) batch_writer" where
  "put_item bwi item st = add_request_and_process bwi (PutRequest item) st"

definition delete_item ::
  "('v, 'c) batch_write_item \<Rightarrow> (string \<rightharpoonup> 'v) \<Rightarrow> ('v, 'c) batch_writer \<Rightarrow>
     error option \<times> ('v, 'c) batch_writer" where
  "delete_item bwi key st = add_request_and_process bwi (DeleteRequest key) st"

text \<open>
  \<^verbatim>\<open>__aexit__\<close>: the loop may run forever (a client that keeps returning the batch as
  unprocessed), so its result is optional: \<open>None\<close> is a loop that never ends. The three
  arguments that describe how the scope was left are not read.
\<close>

partial_function (option) aexit_loop ::
  "('v, 'c) batch_write_item \<Rightarrow> ('v, 'c) batch_writer \<Rightarrow>
     (error option \<times> ('v, 'c) batch_writer) option" where
  "aexit_loop bwi st =
     (if items_buffer st \<noteq> [] then
        (case flush bwi st of
           (Some e, st') \<Rightarrow> Some (Some e, st')
         | (None, st') \<Rightarrow> aexit_loop bwi st')
      else Some (None, st))"

definition aexit ::
  "('v, 'c) batch_write_item \<Rightarrow> 'e option \<Rightarrow> ('v, 'c) batch_writer \<Rightarrow>
     (error option \<times> ('v, 'c) batch_writer) option" where
  "aexit bwi exc st = aexit_loop bwi st"

subsection \<open>Sequences of calls\<close>

text \<open>
  A caller issues \<^verbatim>\<open>put_item\<close> and \<^verbatim>\<open>delete_item\<close> one after the other; each
  is \<open>add_request_and_process\<close> at the request it builds. A call that raises leaves the
  writer as the exception found it, and the caller may go on: the outcomes are collected.
\<close>

fun process_all ::
  "('v, 'c) batch_write_item \<Rightarrow> 'v request list \<Rightarrow> ('v, 'c) batch_writer \<Rightarrow>
     error option list \<times> ('v, 'c) batch_writer" where
  "process_all bwi [] st = ([], st)"
| "process_all bwi (request # requests) st =
     (case add_request_and_process bwi request st of
        (e, st') \<Rightarrow> (case process_all bwi requests st' of (es, st'') \<Rightarrow> (e # es, st'')))"

subsection \<open>Notions used in the statements\<close>

text \<open>What a client's answer gives back as unprocessed for a table, and what it raises.\<close>

definition unprocessed_for :: "string \<Rightarrow> client_exception + 'v response \<Rightarrow> 'v request list" where
  "unprocessed_for tn r =
     (case r of
        Inr (Unprocessed u) \<Rightarrow> (case u tn of None \<Rightarrow> [] | Some l \<Rightarrow> l)
      | _ \<Rightarrow> [])"

definition raised :: "client_exception + 'v response \<Rightarrow> error option" where
  "raised r =
     (case r of
        Inl x \<Rightarrow> Some (ClientError x)
      | Inr NoEntry \<Rightarrow> Some (KeyError ''UnprocessedItems'')
      | Inr _ \<Rightarrow> None)"

text \<open>
  The buffer is well-keyed for the attribute names \<open>ks\<close>: every request has all of them,
  and no two requests have the same tuple of values.
\<close>

definition pkeys_ok :: "string list \<Rightarrow> 'v request list \<Rightarrow> bool" where
  "pkeys_ok ks buf \<longleftrightarrow>
     (\<forall>r\<in>set buf. \<exists>vs. extract_pkey_values ks r = Inr vs) \<and>
     distinct (map (extract_pkey_values ks) buf)"

text \<open>
  A client drains when it never raises and never returns anything as unprocessed. A client
  is faithful when the requests it returns as unprocessed are among those it was sent
  (each at most as often as it was sent): the contract of \<^verbatim>\<open>batch_write_item\<close>.
\<close>

definition drains :: "('v, 'c) batch_write_item \<Rightarrow> bool" where
  "drains bwi \<longleftrightarrow>
     (\<forall>c tn batch. raised (fst (bwi c tn batch)) = None \<and>
                    unprocessed_for tn (fst (bwi c tn batch)) = [])"

definition faithful :: "('v, 'c) batch_write_item \<Rightarrow> bool" where
  "faithful bwi \<longleftrightarrow>
     (\<forall>c tn batch. mset (unprocessed_for tn (fst (bwi c tn batch))) \<subseteq># mset batch)"

text \<open>
  The calls a caller can make on a writer, and a run of them from a given state. Leaving
  the \<^verbatim>\<open>async with\<close> block calls \<^verbatim>\<open>__aexit__\<close> with the exception that ended the
  block, if any. A run goes on after a call that raised (the caller may have caught the
  exception); it has no result when a call never returns.
\<close>

datatype 'v call = Put_item "string \<rightharpoonup> 'v" | Delete_item "string \<rightharpoonup> 'v" | Close "error option"

fun request_of :: "'v call \<Rightarrow> 'v request option" where
  "request_of (Put_item item) = Some (PutRequest item)"
| "request_of (Delete_item key) = Some (DeleteRequest key)"
| "request_of (Close exc) = None"

fun perform ::
  "('v, 'c) batch_write_item \<Rightarrow> 'v call \<Rightarrow> ('v, 'c) batch_writer \<Rightarrow>
     (error option \<times> ('v, 'c) batch_writer) option" where
  "perform bwi (Put_item item) st = Some (put_item bwi item st)"
| "perform bwi (Delete_item key) st = Some (delete_item bwi key st)"
| "perform bwi (Close exc) st = aexit bwi exc st"

fun run ::
  "('v, 'c) batch_write_item \<Rightarrow> 'v call list \<Rightarrow> ('v, 'c) batch_writer \<Rightarrow>
     ('v, 'c) batch_writer option" where
  "run bwi [] st = Some st"
| "run bwi (c # cs) st =
     (case perform bwi c st of None \<Rightarrow> None | Some (e, st') \<Rightarrow> run bwi cs st')"

text \<open>
  The collisions among a sequence of requests, in the spec's sense: a request collides when
  an earlier request of the sequence has the same tuple of key values. Without key names
  nothing collides.
\<close>

fun collisions_from :: "string list \<Rightarrow> 'v request list \<Rightarrow> 'v request list \<Rightarrow> nat" where
  "collisions_from ks seen [] = 0"
| "collisions_from ks seen (r # rs) =
     (if \<exists>q\<in>set seen. extract_pkey_values ks q = extract_pkey_values ks r then 1 else 0)
     + collisions_from ks (r # seen) rs"

definition collisions :: "string list option \<Rightarrow> 'v request list \<Rightarrow> nat" where
  "collisions pkeys rs = (if truthy pkeys then collisions_from (the pkeys) [] rs else 0)"

text \<open>
  The requests handed to the client so far, in the order of the calls, and those handed to
  it between an earlier state and a later one.
\<close>

definition sent_requests :: "('v, 'c) batch_writer \<Rightarrow> 'v request list" where
  "sent_requests st = concat (map snd (sent st))"

definition sent_since ::
  "('v, 'c) batch_writer \<Rightarrow> ('v, 'c) batch_writer \<Rightarrow> 'v request list" where
  "sent_since st st' = concat (map snd (drop (length (sent st)) (sent st')))"

text \<open>
  \<open>n\<close> flushes in a row, stopping at the first that raises: what a loop that does
  nothing but flush has done after \<open>n\<close> rounds.
\<close>

fun flush_times ::
  "('v, 'c) batch_write_item \<Rightarrow> nat \<Rightarrow> ('v, 'c) batch_writer \<Rightarrow>
     error option \<times> ('v, 'c) batch_writer" where
  "flush_times bwi 0 st = (None, st)"
| "flush_times bwi (Suc n) st =
     (case flush bwi st of
        (Some e, st') \<Rightarrow> (Some e, st')
      | (None, st') \<Rightarrow> flush_times bwi n st')"

subsection \<open>Concrete values for the examples\<close>

datatype attr_value = N int | S string

text \<open>Four clients without a state of their own.\<close>

definition accept_all :: "('v, unit) batch_write_item" where
  "accept_all c tn batch = (Inr (Unprocessed Map.empty), c)"

definition reject_all :: "('v, unit) batch_write_item" where
  "reject_all c tn batch = (Inr (Unprocessed [tn \<mapsto> batch]), c)"

definition throttled :: "('v, unit) batch_write_item" where
  "throttled c tn batch = (Inl ''ProvisionedThroughputExceededException'', c)"

definition no_entry :: "('v, unit) batch_write_item" where
  "no_entry c tn batch = (Inr NoEntry, c)"

section \<open>Properties\<close>

subsection \<open>Slices\<close>

lemma slice_to_from: "slice_to n xs @ slice_from n xs = xs"
  by (simp add: slice_to_def slice_from_def)

lemma slice_to_pos: "0 < n \<Longrightarrow> slice_to n xs = take (min (nat n) (length xs)) xs"
  by (simp add: slice_to_def min_def)

lemma slice_from_pos: "0 < n \<Longrightarrow> slice_from n xs = drop (min (nat n) (length xs)) xs"
  by (simp add: slice_from_def min_def)

subsection \<open>One flush\<close>

lemma flush_eq:
  "flush bwi st =
     (let batch = slice_to (flush_amount st) (items_buffer st);
          r = bwi (client st) (table_name st) batch
      in (raised (fst r),
          st\<lparr>items_buffer := slice_from (flush_amount st) (items_buffer st)
                               @ unprocessed_for (table_name st) (fst r),
             client := snd r,
             sent := sent st @ [(table_name st, batch)]\<rparr>))"
  by (auto simp: flush_def Let_def raised_def unprocessed_for_def
           split: prod.splits sum.splits response.splits option.splits)

text \<open>
  C2. With a positive flush amount and a non-empty buffer, a flush calls the client once,
  with the first \<open>min flush_amount (length buffer)\<close> requests in the order of the buffer;
  the buffer it leaves is the rest of the old buffer, in its order, followed by the
  requests the client returned as unprocessed for the table (none when the client raised:
  the batch had left the buffer before the call).
\<close>

theorem flush_sends_front_requeues_back:
  assumes "0 < flush_amount st" and "items_buffer st \<noteq> []"
  shows "let n = min (nat (flush_amount st)) (length (items_buffer st));
             batch = take n (items_buffer st);
             r = fst (bwi (client st) (table_name st) batch);
             st' = snd (flush bwi st)
         in 0 < n \<and> items_buffer st = batch @ drop n (items_buffer st)
            \<and> sent st' = sent st @ [(table_name st, batch)]
            \<and> items_buffer st' = drop n (items_buffer st) @ unprocessed_for (table_name st) r"
  using assms by (simp add: flush_eq Let_def slice_to_pos slice_from_pos)

theorem flush_sends_front_requeues_back_witness:
  "sent (snd (flush reject_all
            ((BatchWriter ''t'' () 2 None 0)
               \<lparr>items_buffer := [PutRequest [''K'' \<mapsto> N 1], DeleteRequest [''K'' \<mapsto> N 2],
                                 PutRequest [''K'' \<mapsto> N 3]]\<rparr>)))
     = [(''t'', [PutRequest [''K'' \<mapsto> N 1], DeleteRequest [''K'' \<mapsto> N 2]])]
   \<and> items_buffer (snd (flush reject_all
            ((BatchWriter ''t'' () 2 None 0)
               \<lparr>items_buffer := [PutRequest [''K'' \<mapsto> N 1], DeleteRequest [''K'' \<mapsto> N 2],
                                 PutRequest [''K'' \<mapsto> N 3]]\<rparr>)))
     = [PutRequest [''K'' \<mapsto> N 3], PutRequest [''K'' \<mapsto> N 1], DeleteRequest [''K'' \<mapsto> N 2]]"
  using flush_sends_front_requeues_back
    [of "(BatchWriter ''t'' () 2 None 0)
           \<lparr>items_buffer := [PutRequest [''K'' \<mapsto> N 1], DeleteRequest [''K'' \<mapsto> N 2],
                             PutRequest [''K'' \<mapsto> N 3]]\<rparr>" reject_all]
  by (simp add: BatchWriter_def reject_all_def unprocessed_for_def Let_def)

text \<open>
  C8, as the code has it. When the response has an entry \<^verbatim>\<open>UnprocessedItems\<close> that is
  \<^verbatim>\<open>None\<close>, or a dictionary that is empty, lacks the table or maps it to the empty list,
  the flush raises nothing and appends nothing: the buffer is the rest of the old buffer.
\<close>

theorem flush_full_success:
  assumes "bwi (client st) (table_name st) (slice_to (flush_amount st) (items_buffer st))
             = (Inr resp, cl)"
      and "resp = NoneValue \<or>
           (\<exists>u. resp = Unprocessed u \<and> (u (table_name st) = None \<or> u (table_name st) = Some []))"
  shows "flush bwi st =
           (None, st\<lparr>items_buffer := slice_from (flush_amount st) (items_buffer st),
                      client := cl,
                      sent := sent st @ [(table_name st,
                                slice_to (flush_amount st) (items_buffer st))]\<rparr>)"
  using assms by (auto simp: flush_eq Let_def raised_def unprocessed_for_def)

theorem flush_full_success_witness:
  "flush accept_all
     ((BatchWriter ''t'' () 2 None 0)
        \<lparr>items_buffer := [PutRequest [''K'' \<mapsto> N 1], DeleteRequest [''K'' \<mapsto> N 2],
                          PutRequest [''K'' \<mapsto> N 3]]\<rparr>)
   = (None, (BatchWriter ''t'' () 2 None 0)
        \<lparr>items_buffer := [PutRequest [''K'' \<mapsto> N 3]],
          sent := [(''t'', [PutRequest [''K'' \<mapsto> N 1], DeleteRequest [''K'' \<mapsto> N 2]])]\<rparr>)"
  using flush_full_success
    [of accept_all
        "(BatchWriter ''t'' () 2 None 0)
           \<lparr>items_buffer := [PutRequest [''K'' \<mapsto> N 1], DeleteRequest [''K'' \<mapsto> N 2],
                             PutRequest [''K'' \<mapsto> N 3]]\<rparr>"
        "Unprocessed Map.empty" "()"]
  by (simp add: BatchWriter_def accept_all_def slice_to_def slice_from_def)

text \<open>
  C8, as the claim has it, fails when the response has no entry \<^verbatim>\<open>UnprocessedItems\<close>
  at all: the subscript raises \<^verbatim>\<open>KeyError\<close>, after the batch has left the buffer.
\<close>

theorem flush_no_entry_raises:
  "flush no_entry
     ((BatchWriter ''t'' () 2 None 0)
        \<lparr>items_buffer := [PutRequest [''K'' \<mapsto> N 1], DeleteRequest [''K'' \<mapsto> N 2],
                          PutRequest [''K'' \<mapsto> N 3]]\<rparr>)
   = (Some (KeyError ''UnprocessedItems''), (BatchWriter ''t'' () 2 None 0)
        \<lparr>items_buffer := [PutRequest [''K'' \<mapsto> N 3]],
          sent := [(''t'', [PutRequest [''K'' \<mapsto> N 1], DeleteRequest [''K'' \<mapsto> N 2]])]\<rparr>)"
  by (simp add: flush_def BatchWriter_def no_entry_def slice_to_def slice_from_def)

subsection \<open>Missing key attributes\<close>

lemma lookup_all_missing:
  "\<not> set ks \<subseteq> dom d \<Longrightarrow> \<exists>k\<in>set ks. d k = None \<and> lookup_all ks d = Inl (KeyError k)"
proof (induction ks)
  case Nil
  then show ?case by simp
next
  case (Cons a ks)
  show ?case
  proof (cases "d a")
    case None
    then show ?thesis by simp
  next
    case (Some v)
    with Cons.prems have "\<not> set ks \<subseteq> dom d" by auto
    from Cons.IH [OF this] obtain k where "k \<in> set ks" "d k = None"
      "lookup_all ks d = Inl (KeyError k)" by blast
    with Some show ?thesis by auto
  qed
qed

text \<open>
  C9. With \<^verbatim>\<open>overwrite_by_pkeys\<close> a list of names of which the row (or key) lacks one,
  \<^verbatim>\<open>put_item\<close> (or \<^verbatim>\<open>delete_item\<close>) raises \<^verbatim>\<open>KeyError\<close> for a missing name and
  leaves the writer exactly as it was: nothing is appended, nothing removed, nothing sent.
\<close>

theorem missing_pkey_raises_and_keeps_buffer:
  assumes "overwrite_by_pkeys st = Some ks" and "\<not> set ks \<subseteq> dom row"
  shows "\<exists>k\<in>set ks. row k = None \<and>
           put_item bwi row st = (Some (KeyError k), st) \<and>
           delete_item bwi row st = (Some (KeyError k), st)"
proof -
  from assms(2) have "ks \<noteq> []" by auto
  from lookup_all_missing [OF assms(2)] obtain k where k: "k \<in> set ks" "row k = None"
    "lookup_all ks row = Inl (KeyError k)" by blast
  with assms(1) \<open>ks \<noteq> []\<close> show ?thesis
    by (auto simp: put_item_def delete_item_def add_request_and_process_def
        overwrite_scan_def remove_dup_pkeys_request_if_any_def intro!: bexI [of _ k])
qed

theorem missing_pkey_raises_and_keeps_buffer_witness:
  "put_item accept_all [''V'' \<mapsto> S ''a'']
     ((BatchWriter ''t'' () 2 (Some [''K'']) 0)\<lparr>items_buffer := [PutRequest [''K'' \<mapsto> N 1]]\<rparr>)
   = (Some (KeyError ''K''),
      (BatchWriter ''t'' () 2 (Some [''K'']) 0)\<lparr>items_buffer := [PutRequest [''K'' \<mapsto> N 1]]\<rparr>)
   \<and> delete_item accept_all [''V'' \<mapsto> S ''a'']
     ((BatchWriter ''t'' () 2 (Some [''K'']) 0)\<lparr>items_buffer := [PutRequest [''K'' \<mapsto> N 1]]\<rparr>)
   = (Some (KeyError ''K''),
      (BatchWriter ''t'' () 2 (Some [''K'']) 0)\<lparr>items_buffer := [PutRequest [''K'' \<mapsto> N 1]]\<rparr>)"
  using missing_pkey_raises_and_keeps_buffer
    [of "(BatchWriter ''t'' () 2 (Some [''K'']) 0)\<lparr>items_buffer := [PutRequest [''K'' \<mapsto> N 1]]\<rparr>"
        "[''K'']" "[''V'' \<mapsto> S ''a'']" accept_all]
  by (simp add: BatchWriter_def)

subsection \<open>The scan for overwritten requests\<close>

lemma remove_dup_loop_no_match:
  assumes "\<forall>r\<in>set (drop i buf). \<exists>vs. extract_pkey_values ks r = Inr vs \<and> vs \<noteq> new"
  shows "remove_dup_loop ks new i buf = (None, buf)"
  using assms
proof (induction "length buf - i" arbitrary: i)
  case 0
  then show ?case by (subst remove_dup_loop.simps) simp
next
  case (Suc n)
  then have i: "i < length buf" by simp
  then have "buf ! i \<in> set (drop i buf)"
    by (metis Cons_nth_drop_Suc list.set_intros(1))
  with Suc.prems obtain vs where vs: "extract_pkey_values ks (buf ! i) = Inr vs" "vs \<noteq> new"
    by blast
  have "set (drop (Suc i) buf) \<subseteq> set (drop i buf)"
    by (simp add: set_drop_subset_set_drop)
  with Suc.prems have "\<forall>r\<in>set (drop (Suc i) buf). \<exists>vs. extract_pkey_values ks r = Inr vs \<and> vs \<noteq> new"
    by blast
  moreover have "n = length buf - Suc i" using Suc.hyps(2) by simp
  ultimately have "remove_dup_loop ks new (Suc i) buf = (None, buf)"
    using Suc.hyps(1) by blast
  with i vs show ?case by (subst remove_dup_loop.simps) simp
qed

lemma remove1_nth_distinct:
  "distinct xs \<Longrightarrow> i < length xs \<Longrightarrow> remove1 (xs ! i) xs = take i xs @ drop (Suc i) xs"
proof (induction xs arbitrary: i)
  case Nil
  then show ?case by simp
next
  case (Cons x xs)
  show ?case
  proof (cases i)
    case 0
    then show ?thesis by simp
  next
    case (Suc j)
    with Cons.prems have "xs ! j \<in> set xs" "x \<notin> set xs" by auto
    then have "x \<noteq> xs ! j" by auto
    with Suc Cons show ?thesis by simp
  qed
qed

lemma remove_dup_loop_distinct:
  assumes "pkeys_ok ks buf"
  shows "remove_dup_loop ks new i buf =
           (None, take i buf @ filter (\<lambda>r. extract_pkey_values ks r \<noteq> Inr new) (drop i buf))"
  using assms
proof (induction "length buf - i" arbitrary: i)
  case 0
  then show ?case by (subst remove_dup_loop.simps) simp
next
  case (Suc n)
  let ?key = "extract_pkey_values ks"
  from Suc have i: "i < length buf" by simp
  from Suc.prems have ex: "\<forall>r\<in>set buf. \<exists>vs. ?key r = Inr vs" and dk: "distinct (map ?key buf)"
    by (simp_all add: pkeys_ok_def)
  from dk have db: "distinct buf" by (rule distinct_map[THEN iffD1, THEN conjunct1])
  from ex i obtain vs where vs: "?key (buf ! i) = Inr vs" by (meson nth_mem)
  have split: "drop i buf = buf ! i # drop (Suc i) buf"
    using i by (simp add: Cons_nth_drop_Suc)
  show ?case
  proof (cases "vs = new")
    case True
    let ?buf' = "take i buf @ drop (Suc i) buf"
    have rest: "\<forall>r\<in>set (drop (Suc i) buf). ?key r \<noteq> Inr new"
    proof
      fix r assume r: "r \<in> set (drop (Suc i) buf)"
      have "distinct (map ?key (drop i buf))"
        using dk by (simp add: distinct_drop flip: drop_map)
      then have "?key (buf ! i) \<notin> ?key ` set (drop (Suc i) buf)"
        by (simp add: split)
      with r have "?key r \<noteq> ?key (buf ! i)" by (metis imageI)
      with vs True show "?key r \<noteq> Inr new" by simp
    qed
    have "\<forall>r\<in>set (drop (Suc i) ?buf'). \<exists>ws. ?key r = Inr ws \<and> ws \<noteq> new"
    proof
      fix r assume "r \<in> set (drop (Suc i) ?buf')"
      then have "r \<in> set (drop (Suc (Suc i)) buf)" using i by simp
      moreover have "set (drop (Suc (Suc i)) buf) \<subseteq> set (drop (Suc i) buf)"
        by (rule set_drop_subset_set_drop) simp
      ultimately have "r \<in> set (drop (Suc i) buf)" by blast
      with rest ex show "\<exists>ws. ?key r = Inr ws \<and> ws \<noteq> new"
        by (metis in_set_dropD)
    qed
    then have "remove_dup_loop ks new (Suc i) ?buf' = (None, ?buf')"
      by (rule remove_dup_loop_no_match)
    moreover have "filter (\<lambda>r. ?key r \<noteq> Inr new) (drop i buf) = drop (Suc i) buf"
      using rest vs True by (simp add: split)
    ultimately show ?thesis
      using i vs True db by (subst remove_dup_loop.simps) (simp add: remove1_nth_distinct)
  next
    case False
    have "n = length buf - Suc i" using Suc.hyps(2) by simp
    from Suc.hyps(1) [OF this Suc.prems]
    have "remove_dup_loop ks new (Suc i) buf =
            (None, take (Suc i) buf @ filter (\<lambda>r. ?key r \<noteq> Inr new) (drop (Suc i) buf))" .
    then show ?thesis
      using i vs False by (subst remove_dup_loop.simps) (simp add: split take_Suc_conv_app_nth)
  qed
qed

lemma remove_dup_pkeys_ok:
  assumes "pkeys_ok ks buf" and "extract_pkey_values ks request = Inr new"
  shows "remove_dup_pkeys_request_if_any ks request buf =
           (None, filter (\<lambda>r. extract_pkey_values ks r \<noteq> Inr new) buf)"
  using assms remove_dup_loop_distinct [of ks buf new 0]
  by (simp add: remove_dup_pkeys_request_if_any_def)

lemma filter_distinct_key:
  "distinct (map f xs) \<Longrightarrow>
     filter (\<lambda>x. f x \<noteq> k) xs = (case find (\<lambda>x. f x = k) xs of None \<Rightarrow> xs | Some y \<Rightarrow> remove1 y xs)"
proof (induction xs)
  case Nil
  then show ?case by simp
next
  case (Cons a xs)
  show ?case
  proof (cases "f a = k")
    case True
    with Cons.prems have "\<forall>x\<in>set xs. f x \<noteq> k" by (auto simp: image_iff)
    then have "filter (\<lambda>x. f x \<noteq> k) xs = xs" by (simp add: filter_id_conv)
    with True show ?thesis by simp
  next
    case False
    with Cons show ?thesis by (auto split: option.splits dest: find_Some_iff [THEN iffD1])
  qed
qed

lemma length_filter_distinct_key:
  "distinct (map f xs) \<Longrightarrow>
     length (filter (\<lambda>x. f x \<noteq> k) xs) = length xs - (if k \<in> f ` set xs then 1 else 0)"
proof (induction xs)
  case Nil
  then show ?case by simp
next
  case (Cons a xs)
  show ?case
  proof (cases "f a = k")
    case True
    with Cons.prems have "\<forall>x\<in>set xs. f x \<noteq> k" by (auto simp: image_iff)
    then have "filter (\<lambda>x. f x \<noteq> k) xs = xs" by (simp add: filter_id_conv)
    with True show ?thesis by simp
  next
    case False
    have "k \<in> f ` set xs \<Longrightarrow> 0 < length xs" by auto
    with False Cons show ?thesis by (auto simp: image_iff)
  qed
qed

text \<open>
  C7, as the code has it. When the buffered requests all have the key attributes and no
  two of them have the same tuple of key values, the scan for a request that has the key
  attributes removes at most one entry, the first (and only) one whose tuple equals the
  new one, and the new request is then appended at the end.
\<close>

theorem scan_removes_the_one_match:
  assumes "overwrite_by_pkeys st = Some ks" and "ks \<noteq> []"
      and "pkeys_ok ks (items_buffer st)"
      and "extract_pkey_values ks request = Inr new"
  shows "\<exists>buf. overwrite_scan st request = (None, buf)
           \<and> buf = (case find (\<lambda>r. extract_pkey_values ks r = Inr new) (items_buffer st) of
                      None \<Rightarrow> items_buffer st
                    | Some old \<Rightarrow> remove1 old (items_buffer st))
           \<and> length (items_buffer st) - 1 \<le> length buf
           \<and> add_request_and_process bwi request st =
               flush_if_needed bwi (st\<lparr>items_buffer := buf @ [request]\<rparr>)"
proof -
  let ?key = "extract_pkey_values ks"
  let ?buf = "filter (\<lambda>r. ?key r \<noteq> Inr new) (items_buffer st)"
  from assms have scan: "overwrite_scan st request = (None, ?buf)"
    by (simp add: overwrite_scan_def remove_dup_pkeys_ok)
  from assms(3) have d: "distinct (map ?key (items_buffer st))" by (simp add: pkeys_ok_def)
  have "?buf = (case find (\<lambda>r. ?key r = Inr new) (items_buffer st) of
                      None \<Rightarrow> items_buffer st
                    | Some old \<Rightarrow> remove1 old (items_buffer st))"
    using d by (rule filter_distinct_key)
  moreover have "length (items_buffer st) - 1 \<le> length ?buf"
    using length_filter_distinct_key [OF d, of "Inr new"] by simp
  moreover have "add_request_and_process bwi request st =
               flush_if_needed bwi (st\<lparr>items_buffer := ?buf @ [request]\<rparr>)"
    using scan by (simp add: add_request_and_process_def)
  ultimately show ?thesis using scan by blast
qed

theorem scan_removes_the_one_match_witness:
  "overwrite_scan
     ((BatchWriter ''t'' () 25 (Some [''K'']) 0)
        \<lparr>items_buffer := [PutRequest [''K'' \<mapsto> N 1, ''V'' \<mapsto> S ''a''], DeleteRequest [''K'' \<mapsto> N 2]]\<rparr>)
     (PutRequest [''K'' \<mapsto> N 1, ''V'' \<mapsto> S ''c''])
   = (None, [DeleteRequest [''K'' \<mapsto> N 2]])
   \<and> add_request_and_process accept_all (PutRequest [''K'' \<mapsto> N 1, ''V'' \<mapsto> S ''c''])
     ((BatchWriter ''t'' () 25 (Some [''K'']) 0)
        \<lparr>items_buffer := [PutRequest [''K'' \<mapsto> N 1, ''V'' \<mapsto> S ''a''], DeleteRequest [''K'' \<mapsto> N 2]]\<rparr>)
   = (None, (BatchWriter ''t'' () 25 (Some [''K'']) 0)
        \<lparr>items_buffer := [DeleteRequest [''K'' \<mapsto> N 2],
                          PutRequest [''K'' \<mapsto> N 1, ''V'' \<mapsto> S ''c'']]\<rparr>)"
  using scan_removes_the_one_match
    [of "(BatchWriter ''t'' () 25 (Some [''K'']) 0)
        \<lparr>items_buffer := [PutRequest [''K'' \<mapsto> N 1, ''V'' \<mapsto> S ''a''], DeleteRequest [''K'' \<mapsto> N 2]]\<rparr>"
       "[''K'']" "PutRequest [''K'' \<mapsto> N 1, ''V'' \<mapsto> S ''c'']" "[N 1]" accept_all]
  by (simp add: BatchWriter_def pkeys_ok_def flush_if_needed_def)

text \<open>
  C7, as the claim has it, fails on a buffer that holds two entries with the tuple of the
  new request: the loop has no \<^verbatim>\<open>break\<close>, and here it removes both.
\<close>

theorem scan_removes_two_matches:
  "add_request_and_process accept_all (PutRequest [''K'' \<mapsto> N 1, ''V'' \<mapsto> S ''c''])
     ((BatchWriter ''t'' () 25 (Some [''K'']) 0)
        \<lparr>items_buffer := [PutRequest [''K'' \<mapsto> N 1, ''V'' \<mapsto> S ''a''],
                          DeleteRequest [''K'' \<mapsto> N 2],
                          PutRequest [''K'' \<mapsto> N 1, ''V'' \<mapsto> S ''b'']]\<rparr>)
   = (None, (BatchWriter ''t'' () 25 (Some [''K'']) 0)
        \<lparr>items_buffer := [DeleteRequest [''K'' \<mapsto> N 2],
                          PutRequest [''K'' \<mapsto> N 1, ''V'' \<mapsto> S ''c'']]\<rparr>)"
  by (simp add: add_request_and_process_def overwrite_scan_def BatchWriter_def
        remove_dup_pkeys_request_if_any_def remove_dup_loop.simps flush_if_needed_def)

subsection \<open>Falsy key names\<close>

lemma flush_if_needed_pkeys:
  "flush_if_needed bwi (st\<lparr>overwrite_by_pkeys := p\<rparr>) =
     (case flush_if_needed bwi st of (e, s) \<Rightarrow> (e, s\<lparr>overwrite_by_pkeys := p\<rparr>))"
  by (simp add: flush_if_needed_def flush_eq Let_def)

lemma add_request_falsy:
  "\<not> truthy (overwrite_by_pkeys st) \<Longrightarrow>
     add_request_and_process bwi request st =
       flush_if_needed bwi (st\<lparr>items_buffer := items_buffer st @ [request]\<rparr>)"
  by (simp add: add_request_and_process_def overwrite_scan_def)

lemma flush_fields:
  "overwrite_by_pkeys (snd (flush bwi st)) = overwrite_by_pkeys st"
  "table_name (snd (flush bwi st)) = table_name st"
  "flush_amount (snd (flush bwi st)) = flush_amount st"
  by (simp_all add: flush_eq Let_def)

lemma flush_if_needed_fields:
  "overwrite_by_pkeys (snd (flush_if_needed bwi st)) = overwrite_by_pkeys st"
  "table_name (snd (flush_if_needed bwi st)) = table_name st"
  "flush_amount (snd (flush_if_needed bwi st)) = flush_amount st"
  by (simp_all add: flush_if_needed_def flush_eq Let_def)

lemma add_request_fields:
  "overwrite_by_pkeys (snd (add_request_and_process bwi r st)) = overwrite_by_pkeys st"
  "table_name (snd (add_request_and_process bwi r st)) = table_name st"
  "flush_amount (snd (add_request_and_process bwi r st)) = flush_amount st"
  by (auto simp: add_request_and_process_def flush_if_needed_fields split: prod.splits option.splits)

lemma add_request_falsy_pkeys:
  assumes "\<not> truthy p" and "\<not> truthy (overwrite_by_pkeys st)"
  shows "add_request_and_process bwi request (st\<lparr>overwrite_by_pkeys := p\<rparr>) =
     (case add_request_and_process bwi request st of (e, s) \<Rightarrow> (e, s\<lparr>overwrite_by_pkeys := p\<rparr>))"
proof -
  let ?st = "st\<lparr>items_buffer := items_buffer st @ [request]\<rparr>"
  have "add_request_and_process bwi request (st\<lparr>overwrite_by_pkeys := p\<rparr>) =
          flush_if_needed bwi (?st\<lparr>overwrite_by_pkeys := p\<rparr>)"
    using assms(1) by (simp add: add_request_falsy) (cases st, simp)
  also have "\<dots> = (case flush_if_needed bwi ?st of (e, s) \<Rightarrow> (e, s\<lparr>overwrite_by_pkeys := p\<rparr>))"
    by (rule flush_if_needed_pkeys)
  also have "flush_if_needed bwi ?st = add_request_and_process bwi request st"
    using assms(2) by (simp add: add_request_falsy)
  finally show ?thesis .
qed

lemma process_all_falsy_pkeys:
  assumes "\<not> truthy p"
  shows "\<not> truthy (overwrite_by_pkeys st) \<Longrightarrow>
     process_all bwi requests (st\<lparr>overwrite_by_pkeys := p\<rparr>) =
     (case process_all bwi requests st of (es, s) \<Rightarrow> (es, s\<lparr>overwrite_by_pkeys := p\<rparr>))"
proof (induction requests arbitrary: st)
  case Nil
  then show ?case by simp
next
  case (Cons r rs)
  obtain e s where s: "add_request_and_process bwi r st = (e, s)" by force
  then have "overwrite_by_pkeys s = overwrite_by_pkeys st"
    using add_request_fields(1) [of bwi r st] by simp
  with Cons.prems have "\<not> truthy (overwrite_by_pkeys s)" by simp
  from Cons.IH [OF this] s assms Cons.prems show ?case
    by (simp add: add_request_falsy_pkeys split: prod.splits)
qed

text \<open>
  C10. With \<^verbatim>\<open>overwrite_by_pkeys\<close> the empty list (or \<^verbatim>\<open>None\<close>), every call appends
  its request without a scan and then checks the threshold, and any sequence of calls on a
  new writer has the outcomes and leaves the state that it has on a writer made with
  \<^verbatim>\<open>overwrite_by_pkeys=None\<close>, the field itself apart.
\<close>

theorem falsy_pkeys_disable_scan:
  fixes bwi :: "('v, 'c) batch_write_item"
  assumes "\<not> truthy pkeys"
  shows "process_all bwi requests (BatchWriter tn cl fa pkeys slp) =
           (case process_all bwi requests (BatchWriter tn cl fa None slp) of
              (es, s) \<Rightarrow> (es, s\<lparr>overwrite_by_pkeys := pkeys\<rparr>))
         \<and> (\<forall>st request. overwrite_by_pkeys st = pkeys \<longrightarrow>
               add_request_and_process bwi request st =
                 flush_if_needed bwi (st\<lparr>items_buffer := items_buffer st @ [request]\<rparr>))"
proof -
  let ?st = "BatchWriter tn cl fa None slp :: ('v, 'c) batch_writer"
  have "process_all bwi requests (BatchWriter tn cl fa pkeys slp) =
          process_all bwi requests (?st\<lparr>overwrite_by_pkeys := pkeys\<rparr>)"
    by (simp add: BatchWriter_def)
  also have "\<dots> = (case process_all bwi requests ?st of
                      (es, s) \<Rightarrow> (es, s\<lparr>overwrite_by_pkeys := pkeys\<rparr>))"
    using assms by (rule process_all_falsy_pkeys) (simp add: BatchWriter_def)
  finally show ?thesis
    using assms by (simp add: add_request_falsy)
qed

theorem falsy_pkeys_disable_scan_witness:
  "process_all accept_all
     [PutRequest [''K'' \<mapsto> N 1, ''V'' \<mapsto> S ''a''], PutRequest [''K'' \<mapsto> N 1, ''V'' \<mapsto> S ''b'']]
     (BatchWriter ''t'' () 25 (Some []) 0)
   = ([None, None],
      (BatchWriter ''t'' () 25 (Some []) 0)
        \<lparr>items_buffer := [PutRequest [''K'' \<mapsto> N 1, ''V'' \<mapsto> S ''a''],
                          PutRequest [''K'' \<mapsto> N 1, ''V'' \<mapsto> S ''b'']]\<rparr>)"
  using falsy_pkeys_disable_scan [of "Some []" accept_all
     "[PutRequest [''K'' \<mapsto> N 1, ''V'' \<mapsto> S ''a''], PutRequest [''K'' \<mapsto> N 1, ''V'' \<mapsto> S ''b'']]"
     "''t''" "()" 25 0]
  by (simp add: BatchWriter_def add_request_and_process_def overwrite_scan_def flush_if_needed_def)

subsection \<open>An exception of the client\<close>

text \<open>
  C4. When the scan raised nothing, the threshold is reached and the client raises on the
  batch, the call (\<^verbatim>\<open>put_item\<close> or \<^verbatim>\<open>delete_item\<close>) raises that exception, and the
  buffer it leaves is what followed the batch: the requests of the batch are not put back.
\<close>

theorem client_error_propagates_batch_lost:
  assumes "overwrite_scan st request = (None, buf)"
      and "flush_amount st \<le> int (length (buf @ [request]))"
      and "bwi (client st) (table_name st) (slice_to (flush_amount st) (buf @ [request])) = (Inl x, cl)"
  shows "\<exists>batch rest. batch = slice_to (flush_amount st) (buf @ [request])
           \<and> batch @ rest = buf @ [request]
           \<and> add_request_and_process bwi request st =
               (Some (ClientError x),
                st\<lparr>items_buffer := rest, client := cl, sent := sent st @ [(table_name st, batch)]\<rparr>)
           \<and> (\<forall>d. request = PutRequest d \<longrightarrow>
                  put_item bwi d st = add_request_and_process bwi request st)
           \<and> (\<forall>d. request = DeleteRequest d \<longrightarrow>
                  delete_item bwi d st = add_request_and_process bwi request st)
           \<and> (distinct (buf @ [request]) \<longrightarrow> set batch \<inter> set rest = {})"
proof -
  let ?batch = "slice_to (flush_amount st) (buf @ [request])"
  let ?rest = "slice_from (flush_amount st) (buf @ [request])"
  have app: "?batch @ ?rest = buf @ [request]" by (rule slice_to_from)
  have "add_request_and_process bwi request st =
               (Some (ClientError x),
                st\<lparr>items_buffer := ?rest, client := cl, sent := sent st @ [(table_name st, ?batch)]\<rparr>)"
    using assms by (simp add: add_request_and_process_def flush_if_needed_def flush_eq raised_def unprocessed_for_def)
  moreover have "distinct (buf @ [request]) \<longrightarrow> set ?batch \<inter> set ?rest = {}"
    by (metis app distinct_append)
  moreover have "\<forall>d. request = PutRequest d \<longrightarrow>
                  put_item bwi d st = add_request_and_process bwi request st"
    by (simp add: put_item_def)
  moreover have "\<forall>d. request = DeleteRequest d \<longrightarrow>
                  delete_item bwi d st = add_request_and_process bwi request st"
    by (simp add: delete_item_def)
  ultimately show ?thesis using app by blast
qed

theorem client_error_propagates_batch_lost_witness:
  "add_request_and_process throttled (PutRequest [''K'' \<mapsto> N 2])
     ((BatchWriter ''t'' () 2 None 0)\<lparr>items_buffer := [PutRequest [''K'' \<mapsto> N 1]]\<rparr>)
   = (Some (ClientError ''ProvisionedThroughputExceededException''),
      (BatchWriter ''t'' () 2 None 0)
        \<lparr>items_buffer := [],
          sent := [(''t'', [PutRequest [''K'' \<mapsto> N 1], PutRequest [''K'' \<mapsto> N 2]])]\<rparr>)"
  using client_error_propagates_batch_lost [of "(BatchWriter ''t'' () 2 None 0)\<lparr>items_buffer := [PutRequest [''K'' \<mapsto> N 1]]\<rparr>"
      "PutRequest [''K'' \<mapsto> N 2]" "[PutRequest [''K'' \<mapsto> N 1]]" throttled
      "''ProvisionedThroughputExceededException''" "()"]
  by (simp add: BatchWriter_def overwrite_scan_def throttled_def slice_to_def)

subsection \<open>Leaving the block\<close>

lemma aexit_loop_invariant:
  assumes "aexit_loop bwi st = Some (e, st')" and "I st"
      and step: "\<forall>s. I s \<longrightarrow> items_buffer s \<noteq> [] \<longrightarrow> I (snd (flush bwi s))"
  shows "I st' \<and> (e = None \<longrightarrow> items_buffer st' = [])
           \<and> (\<forall>err. e = Some err \<longrightarrow> (\<exists>s. I s \<and> items_buffer s \<noteq> [] \<and> flush bwi s = (Some err, st')))"
  using assms
proof (induction bwi st "(e, st')" rule: aexit_loop.raw_induct [rotated 1, consumes 1])
  case (1 loop b s)
  show ?case
  proof (cases "items_buffer s = []")
    case True
    with 1 show ?thesis by simp
  next
    case False
    obtain e1 s1 where f: "flush b s = (e1, s1)" by force
    from 1(3,4) False have "I (snd (flush b s))" by blast
    with f have I1: "I s1" by simp
    show ?thesis
    proof (cases e1)
      case None
      with 1(2) False f have "loop b s1 = Some (e, st')" by simp
      from 1(1) [OF this I1 1(4)] show ?thesis .
    next
      case (Some err)
      with 1(2) False f have "e = Some err" "st' = s1" by simp_all
      with I1 f False \<open>I s\<close> Some show ?thesis by auto
    qed
  qed
qed

lemma flush_sent: "sent (snd (flush bwi st)) =
    sent st @ [(table_name st, slice_to (flush_amount st) (items_buffer st))]"
  by (simp add: flush_eq Let_def)

lemma aexit_loop_flush_times:
  assumes "aexit_loop bwi st = Some (e, st')"
  shows "\<exists>n. flush_times bwi n st = (e, st')
           \<and> length (sent st') = length (sent st) + n
           \<and> (\<forall>m<n. fst (flush_times bwi m st) = None
                      \<and> items_buffer (snd (flush_times bwi m st)) \<noteq> [])
           \<and> (e = None \<longrightarrow> items_buffer st' = [])"
  using assms
proof (induction bwi st "(e, st')" rule: aexit_loop.raw_induct [rotated 1, consumes 1])
  case (1 loop b s)
  show ?case
  proof (cases "items_buffer s = []")
    case True
    with 1(2) have "e = None" "st' = s" by simp_all
    with True show ?thesis by (intro exI [of _ 0]) simp
  next
    case False
    obtain e1 s1 where f: "flush b s = (e1, s1)" by force
    have len1: "length (sent s1) = Suc (length (sent s))"
      using flush_sent [of b s] f by simp
    show ?thesis
    proof (cases e1)
      case (Some err)
      with 1(2) False f have "e = Some err" "st' = s1" by simp_all
      with f Some False len1 show ?thesis by (intro exI [of _ 1]) simp
    next
      case None
      with 1(2) False f have "loop b s1 = Some (e, st')" by simp
      from 1(1) [OF this] obtain n where n: "flush_times b n s1 = (e, st')"
        "length (sent st') = length (sent s1) + n"
        "\<forall>m<n. fst (flush_times b m s1) = None \<and> items_buffer (snd (flush_times b m s1)) \<noteq> []"
        "e = None \<longrightarrow> items_buffer st' = []"
        by blast
      have "\<forall>m<Suc n. fst (flush_times b m s) = None
                      \<and> items_buffer (snd (flush_times b m s)) \<noteq> []"
      proof (intro allI impI)
        fix m assume "m < Suc n"
        then show "fst (flush_times b m s) = None
                      \<and> items_buffer (snd (flush_times b m s)) \<noteq> []"
          using n(3) f None False by (cases m) simp_all
      qed
      with n f None len1 show ?thesis by (intro exI [of _ "Suc n"]) simp
    qed
  qed
qed

lemma flush_conserves:
  "mset (items_buffer st) + mset (concat (map snd (sent st)))
     \<subseteq># mset (items_buffer (snd (flush bwi st))) + mset (concat (map snd (sent (snd (flush bwi st)))))"
proof -
  let ?b = "slice_to (flush_amount st) (items_buffer st)"
  let ?r = "slice_from (flush_amount st) (items_buffer st)"
  have "mset (items_buffer st) = mset ?b + mset ?r"
    by (metis mset_append slice_to_from)
  then show ?thesis by (simp add: flush_eq Let_def)
qed

lemma aexit_loop_conserves:
  fixes st :: "('v, 'c) batch_writer"
  assumes "aexit_loop bwi st = Some (e, st')"
  shows "(\<exists>new. sent st' = sent st @ new)
         \<and> mset (items_buffer st) + mset (concat (map snd (sent st)))
             \<subseteq># mset (items_buffer st') + mset (concat (map snd (sent st')))"
proof -
  let ?I = "\<lambda>s :: ('v, 'c) batch_writer. (\<exists>new. sent s = sent st @ new)
              \<and> mset (items_buffer st) + mset (concat (map snd (sent st)))
                   \<subseteq># mset (items_buffer s) + mset (concat (map snd (sent s)))"
  have "?I st" by simp
  moreover have "\<forall>s. ?I s \<longrightarrow> items_buffer s \<noteq> [] \<longrightarrow> ?I (snd (flush bwi s))"
  proof (intro allI impI)
    fix s assume I: "?I s"
    then obtain new where "sent s = sent st @ new" by blast
    then have "\<exists>new'. sent (snd (flush bwi s)) = sent st @ new'"
      by (simp add: flush_sent)
    moreover from I flush_conserves [of s bwi]
    have "mset (items_buffer st) + mset (concat (map snd (sent st)))
            \<subseteq># mset (items_buffer (snd (flush bwi s)))
                + mset (concat (map snd (sent (snd (flush bwi s)))))"
      by (meson subset_mset.order_trans)
    ultimately show "?I (snd (flush bwi s))" by blast
  qed
  ultimately show ?thesis
    using aexit_loop_invariant [OF assms, of ?I] by blast
qed

lemma aexit_loop_sent_since:
  assumes "aexit_loop bwi st = Some (None, st')"
  shows "mset (items_buffer st) \<subseteq># mset (sent_since st st')"
proof -
  from aexit_loop_conserves [OF assms] obtain new where new: "sent st' = sent st @ new"
    and c: "mset (items_buffer st) + mset (concat (map snd (sent st)))
             \<subseteq># mset (items_buffer st') + mset (concat (map snd (sent st')))"
    by blast
  have "items_buffer st' = []"
    using aexit_loop_invariant [OF assms, of "\<lambda>_. True"] by simp
  with c new have "mset (items_buffer st) \<subseteq># mset (concat (map snd new))"
    by simp
  with new show ?thesis by (simp add: sent_since_def)
qed

lemma aexit_loop_drains_in_order:
  assumes "drains bwi" and "0 < flush_amount st"
  shows "\<exists>st'. aexit_loop bwi st = Some (None, st') \<and> items_buffer st' = []
           \<and> (\<exists>new. sent st' = sent st @ new \<and> concat (map snd new) = items_buffer st)"
  using assms(2)
proof (induction "length (items_buffer st)" arbitrary: st rule: less_induct)
  case less
  show ?case
  proof (cases "items_buffer st = []")
    case True
    then show ?thesis by (subst aexit_loop.simps) simp
  next
    case False
    let ?b = "slice_to (flush_amount st) (items_buffer st)"
    obtain e s where f: "flush bwi st = (e, s)" by force
    with assms(1) have e: "e = None"
      and b: "items_buffer s = slice_from (flush_amount st) (items_buffer st)"
      and fa: "flush_amount s = flush_amount st"
      and se: "sent s = sent st @ [(table_name st, ?b)]"
      by (auto simp: flush_eq Let_def drains_def)
    from False less.prems have "length (items_buffer s) < length (items_buffer st)"
      by (simp add: b slice_from_pos)
    from less.hyps [OF this] less.prems fa
    obtain st' new where st': "aexit_loop bwi s = Some (None, st')" "items_buffer st' = []"
      "sent st' = sent s @ new" "concat (map snd new) = items_buffer s" by auto
    have "sent st' = sent st @ ((table_name st, ?b) # new)"
      using st'(3) se by simp
    moreover have "concat (map snd ((table_name st, ?b) # new)) = items_buffer st"
      using st'(4) b by (simp add: slice_to_from)
    moreover have "aexit_loop bwi st = Some (None, st')"
      using False f e st'(1) by (subst aexit_loop.simps) simp
    ultimately show ?thesis using st'(2) by blast
  qed
qed

text \<open>
  C3, as the code has it. \<^verbatim>\<open>__aexit__\<close> does the same whether the block ended normally
  or by an exception. When it returns or raises, it has done some number \<open>n\<close> of flushes
  in a row and nothing else: one call of the client each, every one on a non-empty buffer
  and after flushes that raised nothing, the last one being the one that raised, if any.
  When it returns without raising, the buffer is empty and every request that was
  buffered has been handed to the client during the close. It does return so, for any
  buffer, when the flush amount is positive and the client drains; the requests are then
  sent once each, in the order of the buffer.
\<close>

theorem aexit_drains_buffer:
  "aexit bwi exc st = aexit bwi None st
   \<and> (\<forall>e st'. aexit bwi exc st = Some (e, st') \<longrightarrow>
        (\<exists>n. flush_times bwi n st = (e, st')
            \<and> length (sent st') = length (sent st) + n
            \<and> (\<forall>m<n. fst (flush_times bwi m st) = None
                      \<and> items_buffer (snd (flush_times bwi m st)) \<noteq> []))
        \<and> (e = None \<longrightarrow> items_buffer st' = []
                        \<and> mset (items_buffer st) \<subseteq># mset (sent_since st st')))
   \<and> (drains bwi \<and> 0 < flush_amount st \<longrightarrow>
        (\<exists>st'. aexit bwi exc st = Some (None, st') \<and> items_buffer st' = []
             \<and> sent_since st st' = items_buffer st))"
proof -
  have a: "\<exists>n. flush_times bwi n st = (e, st')
            \<and> length (sent st') = length (sent st) + n
            \<and> (\<forall>m<n. fst (flush_times bwi m st) = None
                      \<and> items_buffer (snd (flush_times bwi m st)) \<noteq> [])"
    and b: "e = None \<longrightarrow> items_buffer st' = []
                        \<and> mset (items_buffer st) \<subseteq># mset (sent_since st st')"
    if "aexit_loop bwi st = Some (e, st')" for e st'
    using aexit_loop_flush_times [OF that] aexit_loop_sent_since [of bwi st st'] that
    by blast+
  have c: "\<exists>st'. aexit_loop bwi st = Some (None, st') \<and> items_buffer st' = []
             \<and> sent_since st st' = items_buffer st"
    if "drains bwi" "0 < flush_amount st"
    using aexit_loop_drains_in_order [OF that] by (auto simp: sent_since_def)
  from a b c show ?thesis by (simp add: aexit_def)
qed

theorem aexit_drains_buffer_witness:
  "aexit accept_all (Some (KeyError ''K''))
     ((BatchWriter ''t'' () 2 None 0)
        \<lparr>items_buffer := [PutRequest [''K'' \<mapsto> N 1], DeleteRequest [''K'' \<mapsto> N 2],
                          PutRequest [''K'' \<mapsto> N 3]]\<rparr>)
   = Some (None, (BatchWriter ''t'' () 2 None 0)
        \<lparr>items_buffer := [],
          sent := [(''t'', [PutRequest [''K'' \<mapsto> N 1], DeleteRequest [''K'' \<mapsto> N 2]]),
                   (''t'', [PutRequest [''K'' \<mapsto> N 3]])]\<rparr>)"
  using aexit_drains_buffer [of accept_all "Some (KeyError ''K'')"
     "(BatchWriter ''t'' () 2 None 0)
        \<lparr>items_buffer := [PutRequest [''K'' \<mapsto> N 1], DeleteRequest [''K'' \<mapsto> N 2],
                          PutRequest [''K'' \<mapsto> N 3]]\<rparr>"]
  by (simp add: aexit_def aexit_loop.simps flush_def BatchWriter_def accept_all_def
        slice_to_def slice_from_def)

text \<open>
  C3, as the claim has it, fails for a client that never raises but whose response has no
  entry \<^verbatim>\<open>UnprocessedItems\<close>: the first flush raises \<^verbatim>\<open>KeyError\<close>, the close stops
  there and the third request stays in the buffer.
\<close>

theorem aexit_stops_on_missing_entry:
  "no_entry () ''t'' [PutRequest [''K'' \<mapsto> N 1], DeleteRequest [''K'' \<mapsto> N 2]]
     = (Inr NoEntry, ())
   \<and> aexit no_entry None
     ((BatchWriter ''t'' () 2 None 0)
        \<lparr>items_buffer := [PutRequest [''K'' \<mapsto> N 1], DeleteRequest [''K'' \<mapsto> N 2],
                          PutRequest [''K'' \<mapsto> N 3]]\<rparr>)
   = Some (Some (KeyError ''UnprocessedItems''), (BatchWriter ''t'' () 2 None 0)
        \<lparr>items_buffer := [PutRequest [''K'' \<mapsto> N 3]],
          sent := [(''t'', [PutRequest [''K'' \<mapsto> N 1], DeleteRequest [''K'' \<mapsto> N 2]])]\<rparr>)"
  by (simp add: aexit_def aexit_loop.simps flush_def BatchWriter_def no_entry_def
        slice_to_def slice_from_def)

subsection \<open>The buffer never holds two requests with the same key values\<close>

lemma distinct_submset:
  assumes "distinct xs" and "mset ys \<subseteq># mset xs"
  shows "distinct ys"
  unfolding distinct_count_atmost_1
proof (intro allI)
  fix a
  have "count (mset ys) a \<le> count (mset xs) a"
    using assms(2) by (rule mset_subset_eq_count)
  also have "\<dots> \<le> 1"
    using assms(1) by (simp add: distinct_count_atmost_1)
  finally have le: "count (mset ys) a \<le> 1" .
  show "count (mset ys) a = (if a \<in> set ys then 1 else 0)"
  proof (cases "a \<in> set ys")
    case True
    then have "1 \<le> count (mset ys) a" by (simp add: Suc_le_eq)
    with le have "count (mset ys) a = 1" by (rule order_antisym)
    with True show ?thesis by simp
  next
    case False
    then show ?thesis by (simp add: count_mset_0_iff)
  qed
qed

lemma pkeys_ok_submset:
  assumes "pkeys_ok ks xs" and "mset ys \<subseteq># mset xs"
  shows "pkeys_ok ks ys"
proof -
  let ?key = "extract_pkey_values ks"
  from assms(2) have "set ys \<subseteq> set xs" by (metis set_mset_mono set_mset_mset)
  moreover have "mset (map ?key ys) \<subseteq># mset (map ?key xs)"
    using assms(2) by (simp add: image_mset_subseteq_mono)
  with assms(1) have "distinct (map ?key ys)"
    by (auto simp: pkeys_ok_def intro: distinct_submset)
  ultimately show ?thesis using assms(1) by (auto simp: pkeys_ok_def)
qed

lemma flush_submset:
  assumes "faithful bwi"
  shows "mset (items_buffer (snd (flush bwi st))) \<subseteq># mset (items_buffer st)"
proof -
  let ?b = "slice_to (flush_amount st) (items_buffer st)"
  let ?r = "slice_from (flush_amount st) (items_buffer st)"
  let ?u = "unprocessed_for (table_name st) (fst (bwi (client st) (table_name st) ?b))"
  from assms have "mset ?u \<subseteq># mset ?b" by (simp add: faithful_def)
  then have "mset (?r @ ?u) \<subseteq># mset (?b @ ?r)" by (simp add: union_commute)
  then show ?thesis by (simp add: flush_eq Let_def slice_to_from)
qed

lemma flush_if_needed_submset:
  assumes "faithful bwi"
  shows "mset (items_buffer (snd (flush_if_needed bwi st))) \<subseteq># mset (items_buffer st)"
  using flush_submset [OF assms, of st] by (simp add: flush_if_needed_def)

lemma aexit_loop_submset:
  assumes "faithful bwi" and "aexit_loop bwi st = Some (e, st')"
  shows "mset (items_buffer st') \<subseteq># mset (items_buffer st) \<and>
         overwrite_by_pkeys st' = overwrite_by_pkeys st"
proof -
  let ?I = "\<lambda>s. mset (items_buffer s) \<subseteq># mset (items_buffer st) \<and>
                 overwrite_by_pkeys s = overwrite_by_pkeys st"
  have "\<forall>s. ?I s \<longrightarrow> items_buffer s \<noteq> [] \<longrightarrow> ?I (snd (flush bwi s))"
    using flush_submset [OF assms(1)] by (auto simp: flush_fields intro: subset_mset.order_trans)
  with aexit_loop_invariant [OF assms(2), of ?I] show ?thesis by simp
qed

lemma add_request_well_keyed:
  assumes "faithful bwi" and "overwrite_by_pkeys st = Some ks" and "ks \<noteq> []"
      and "pkeys_ok ks (items_buffer st)"
  shows "pkeys_ok ks (items_buffer (snd (add_request_and_process bwi r st)))
         \<and> set (items_buffer (snd (add_request_and_process bwi r st)))
              \<subseteq> insert r (set (items_buffer st))
         \<and> (\<forall>x\<in>set (items_buffer (snd (add_request_and_process bwi r st))).
               extract_pkey_values ks x = extract_pkey_values ks r \<longrightarrow> x = r)"
proof (cases "extract_pkey_values ks r")
  case (Inl e)
  with assms(2,3) have "add_request_and_process bwi r st = (Some e, st)"
    by (simp add: add_request_and_process_def overwrite_scan_def
        remove_dup_pkeys_request_if_any_def)
  with assms(4) Inl show ?thesis by (auto simp: pkeys_ok_def)
next
  case (Inr new)
  let ?key = "extract_pkey_values ks"
  let ?buf = "filter (\<lambda>x. ?key x \<noteq> Inr new) (items_buffer st) @ [r]"
  let ?st1 = "st\<lparr>items_buffer := ?buf\<rparr>"
  from assms(2-4) Inr have step: "add_request_and_process bwi r st = flush_if_needed bwi ?st1"
    by (simp add: add_request_and_process_def overwrite_scan_def remove_dup_pkeys_ok)
  from assms(4) Inr have ok1: "pkeys_ok ks ?buf"
    by (auto simp: pkeys_ok_def distinct_map_filter)
  have sub: "mset (items_buffer (snd (flush_if_needed bwi ?st1))) \<subseteq># mset ?buf"
    using flush_if_needed_submset [OF assms(1), of ?st1] by simp
  then have set_sub: "set (items_buffer (snd (flush_if_needed bwi ?st1))) \<subseteq> set ?buf"
    by (metis set_mset_mono set_mset_mset)
  have "pkeys_ok ks (items_buffer (snd (flush_if_needed bwi ?st1)))"
    using ok1 sub by (rule pkeys_ok_submset)
  moreover have "set ?buf \<subseteq> insert r (set (items_buffer st))" by auto
  moreover have "\<forall>x\<in>set ?buf. ?key x = ?key r \<longrightarrow> x = r"
    using Inr by auto
  ultimately show ?thesis using set_sub unfolding step by blast
qed

lemma perform_well_keyed:
  assumes "faithful bwi" and "overwrite_by_pkeys st = Some ks" and "ks \<noteq> []"
      and "pkeys_ok ks (items_buffer st)"
      and "perform bwi c st = Some (e, st')"
  shows "overwrite_by_pkeys st' = Some ks \<and> pkeys_ok ks (items_buffer st')
         \<and> set (items_buffer st') \<subseteq> set (items_buffer st) \<union> set_option (request_of c)
         \<and> (\<forall>r\<in>set_option (request_of c). \<forall>x\<in>set (items_buffer st').
               extract_pkey_values ks x = extract_pkey_values ks r \<longrightarrow> x = r)"
proof (cases c)
  case (Put_item item)
  with assms(5) have "st' = snd (add_request_and_process bwi (PutRequest item) st)"
    by (simp add: put_item_def)
  with add_request_well_keyed [OF assms(1-4), of "PutRequest item"] assms(2) Put_item
  show ?thesis by (simp add: add_request_fields)
next
  case (Delete_item key)
  with assms(5) have "st' = snd (add_request_and_process bwi (DeleteRequest key) st)"
    by (simp add: delete_item_def)
  with add_request_well_keyed [OF assms(1-4), of "DeleteRequest key"] assms(2) Delete_item
  show ?thesis by (simp add: add_request_fields)
next
  case (Close exc)
  with assms(5) have "aexit_loop bwi st = Some (e, st')" by (simp add: aexit_def)
  from aexit_loop_submset [OF assms(1) this]
  have sub: "mset (items_buffer st') \<subseteq># mset (items_buffer st)"
    and pk: "overwrite_by_pkeys st' = overwrite_by_pkeys st" by simp_all
  from sub have "set (items_buffer st') \<subseteq> set (items_buffer st)"
    by (metis set_mset_mono set_mset_mset)
  with pkeys_ok_submset [OF assms(4) sub] pk assms(2) Close show ?thesis by simp
qed

lemma run_append:
  "run bwi (cs @ ds) st = (case run bwi cs st of None \<Rightarrow> None | Some s \<Rightarrow> run bwi ds s)"
  by (induction cs arbitrary: st) (auto split: option.splits)

lemma run_well_keyed:
  assumes "faithful bwi" and "ks \<noteq> []"
  shows "overwrite_by_pkeys st = Some ks \<Longrightarrow> pkeys_ok ks (items_buffer st) \<Longrightarrow>
         run bwi cs st = Some st' \<Longrightarrow>
         overwrite_by_pkeys st' = Some ks \<and> pkeys_ok ks (items_buffer st')"
proof (induction cs arbitrary: st)
  case Nil
  then show ?case by simp
next
  case (Cons c cs)
  from Cons.prems(3) obtain e s where p: "perform bwi c st = Some (e, s)"
    and r: "run bwi cs s = Some st'"
    by (auto split: option.splits)
  from perform_well_keyed [OF assms(1) Cons.prems(1) assms(2) Cons.prems(2) p]
  have "overwrite_by_pkeys s = Some ks" "pkeys_ok ks (items_buffer s)" by simp_all
  then show ?case using r by (rule Cons.IH)
qed

lemma run_keeps_newest:
  assumes "faithful bwi" and "ks \<noteq> []"
  shows "overwrite_by_pkeys st = Some ks \<Longrightarrow> pkeys_ok ks (items_buffer st) \<Longrightarrow>
         \<forall>x\<in>set (items_buffer st). extract_pkey_values ks x = k \<longrightarrow> x = r \<Longrightarrow>
         \<forall>c\<in>set cs. \<forall>q\<in>set_option (request_of c). extract_pkey_values ks q \<noteq> k \<Longrightarrow>
         run bwi cs st = Some st' \<Longrightarrow>
         \<forall>x\<in>set (items_buffer st'). extract_pkey_values ks x = k \<longrightarrow> x = r"
proof (induction cs arbitrary: st)
  case Nil
  then show ?case by simp
next
  case (Cons c cs)
  from Cons.prems(5) obtain e s where p: "perform bwi c st = Some (e, s)"
    and r: "run bwi cs s = Some st'"
    by (auto split: option.splits)
  from perform_well_keyed [OF assms(1) Cons.prems(1) assms(2) Cons.prems(2) p]
  have s: "overwrite_by_pkeys s = Some ks" "pkeys_ok ks (items_buffer s)"
    and sub: "set (items_buffer s) \<subseteq> set (items_buffer st) \<union> set_option (request_of c)"
    by simp_all
  have "\<forall>x\<in>set (items_buffer s). extract_pkey_values ks x = k \<longrightarrow> x = r"
    using sub Cons.prems(3,4) by auto
  moreover have "\<forall>c\<in>set cs. \<forall>q\<in>set_option (request_of c). extract_pkey_values ks q \<noteq> k"
    using Cons.prems(4) by simp
  ultimately show ?case using s r Cons.IH by blast
qed

lemma flush_keeps:
  "set (items_buffer st) \<union> set (sent_requests st)
     \<subseteq> set (items_buffer (snd (flush bwi st))) \<union> set (sent_requests (snd (flush bwi st)))"
proof -
  have "set (items_buffer st) = set (slice_to (flush_amount st) (items_buffer st))
                              \<union> set (slice_from (flush_amount st) (items_buffer st))"
    by (metis set_append slice_to_from)
  then show ?thesis by (auto simp: flush_eq Let_def sent_requests_def)
qed

lemma flush_if_needed_keeps:
  "set (items_buffer st) \<union> set (sent_requests st)
     \<subseteq> set (items_buffer (snd (flush_if_needed bwi st)))
         \<union> set (sent_requests (snd (flush_if_needed bwi st)))"
  using flush_keeps [of st bwi] by (simp add: flush_if_needed_def)

lemma aexit_loop_keeps:
  fixes st :: "('v, 'c) batch_writer"
  assumes "aexit_loop bwi st = Some (e, st')"
  shows "set (items_buffer st) \<union> set (sent_requests st)
           \<subseteq> set (items_buffer st') \<union> set (sent_requests st')"
proof -
  let ?I = "\<lambda>s :: ('v, 'c) batch_writer.
              set (items_buffer st) \<union> set (sent_requests st)
                \<subseteq> set (items_buffer s) \<union> set (sent_requests s)"
  have "\<forall>s. ?I s \<longrightarrow> items_buffer s \<noteq> [] \<longrightarrow> ?I (snd (flush bwi s))"
    using flush_keeps [of _ bwi] by (meson subset_trans)
  with aexit_loop_invariant [OF assms, of ?I] show ?thesis by simp
qed

lemma add_request_keeps:
  assumes "overwrite_by_pkeys st = Some ks" and "ks \<noteq> []"
      and "pkeys_ok ks (items_buffer st)"
  shows "(\<forall>vs. extract_pkey_values ks r = Inr vs \<longrightarrow>
            r \<in> set (items_buffer (snd (add_request_and_process bwi r st)))
                  \<union> set (sent_requests (snd (add_request_and_process bwi r st))))
         \<and> (\<forall>x \<in> set (items_buffer st) \<union> set (sent_requests st).
               extract_pkey_values ks x \<noteq> extract_pkey_values ks r \<longrightarrow>
               x \<in> set (items_buffer (snd (add_request_and_process bwi r st)))
                     \<union> set (sent_requests (snd (add_request_and_process bwi r st))))"
proof (cases "extract_pkey_values ks r")
  case (Inl e)
  with assms(1,2) have "add_request_and_process bwi r st = (Some e, st)"
    by (simp add: add_request_and_process_def overwrite_scan_def
        remove_dup_pkeys_request_if_any_def)
  with Inl show ?thesis by simp
next
  case (Inr new)
  let ?buf = "filter (\<lambda>x. extract_pkey_values ks x \<noteq> Inr new) (items_buffer st) @ [r]"
  let ?st1 = "st\<lparr>items_buffer := ?buf\<rparr>"
  from assms Inr have step: "add_request_and_process bwi r st = flush_if_needed bwi ?st1"
    by (simp add: add_request_and_process_def overwrite_scan_def remove_dup_pkeys_ok)
  have keep: "set (items_buffer ?st1) \<union> set (sent_requests ?st1)
     \<subseteq> set (items_buffer (snd (flush_if_needed bwi ?st1)))
         \<union> set (sent_requests (snd (flush_if_needed bwi ?st1)))"
    by (rule flush_if_needed_keeps)
  have "r \<in> set (items_buffer ?st1) \<union> set (sent_requests ?st1)" by simp
  moreover have "\<forall>x \<in> set (items_buffer st) \<union> set (sent_requests st).
               extract_pkey_values ks x \<noteq> extract_pkey_values ks r \<longrightarrow>
               x \<in> set (items_buffer ?st1) \<union> set (sent_requests ?st1)"
    using Inr by (auto simp: sent_requests_def)
  ultimately show ?thesis using keep unfolding step by blast
qed

lemma perform_keeps:
  assumes "overwrite_by_pkeys st = Some ks" and "ks \<noteq> []"
      and "pkeys_ok ks (items_buffer st)"
      and "perform bwi c st = Some (e, st')"
  shows "(\<forall>r vs. request_of c = Some r \<and> extract_pkey_values ks r = Inr vs \<longrightarrow>
            r \<in> set (items_buffer st') \<union> set (sent_requests st'))
         \<and> (\<forall>x \<in> set (items_buffer st) \<union> set (sent_requests st).
               (\<forall>q\<in>set_option (request_of c).
                   extract_pkey_values ks q \<noteq> extract_pkey_values ks x) \<longrightarrow>
               x \<in> set (items_buffer st') \<union> set (sent_requests st'))"
proof (cases c)
  case (Put_item item)
  with assms(4) have "st' = snd (add_request_and_process bwi (PutRequest item) st)"
    by (simp add: put_item_def)
  with add_request_keeps [OF assms(1-3), of "PutRequest item" bwi] Put_item
  show ?thesis by (auto simp del: extract_pkey_values.simps)
next
  case (Delete_item key)
  with assms(4) have "st' = snd (add_request_and_process bwi (DeleteRequest key) st)"
    by (simp add: delete_item_def)
  with add_request_keeps [OF assms(1-3), of "DeleteRequest key" bwi] Delete_item
  show ?thesis by (auto simp del: extract_pkey_values.simps)
next
  case (Close exc)
  with assms(4) have "aexit_loop bwi st = Some (e, st')" by (simp add: aexit_def)
  from aexit_loop_keeps [OF this] Close show ?thesis by auto
qed

lemma run_keeps_unmatched:
  assumes "faithful bwi" and "ks \<noteq> []"
  shows "overwrite_by_pkeys st = Some ks \<Longrightarrow> pkeys_ok ks (items_buffer st) \<Longrightarrow>
         x \<in> set (items_buffer st) \<union> set (sent_requests st) \<Longrightarrow>
         \<forall>c\<in>set cs. \<forall>q\<in>set_option (request_of c).
            extract_pkey_values ks q \<noteq> extract_pkey_values ks x \<Longrightarrow>
         run bwi cs st = Some st' \<Longrightarrow>
         x \<in> set (items_buffer st') \<union> set (sent_requests st')"
proof (induction cs arbitrary: st)
  case Nil
  then show ?case by simp
next
  case (Cons c cs)
  from Cons.prems(5) obtain e s where p: "perform bwi c st = Some (e, s)"
    and r: "run bwi cs s = Some st'"
    by (auto split: option.splits)
  from perform_well_keyed [OF assms(1) Cons.prems(1) assms(2) Cons.prems(2) p]
  have s: "overwrite_by_pkeys s = Some ks" "pkeys_ok ks (items_buffer s)" by simp_all
  from perform_keeps [OF Cons.prems(1) assms(2) Cons.prems(2) p] Cons.prems(3,4)
  have "x \<in> set (items_buffer s) \<union> set (sent_requests s)" by simp
  moreover have "\<forall>c\<in>set cs. \<forall>q\<in>set_option (request_of c).
            extract_pkey_values ks q \<noteq> extract_pkey_values ks x"
    using Cons.prems(4) by simp
  ultimately show ?case using s r Cons.IH by blast
qed

lemma run_only_requested:
  assumes "faithful bwi" and "ks \<noteq> []"
  shows "overwrite_by_pkeys st = Some ks \<Longrightarrow> pkeys_ok ks (items_buffer st) \<Longrightarrow>
         run bwi cs st = Some st' \<Longrightarrow>
         set (items_buffer st') \<subseteq> set (items_buffer st) \<union> {r. \<exists>c\<in>set cs. request_of c = Some r}"
proof (induction cs arbitrary: st)
  case Nil
  then show ?case by simp
next
  case (Cons c cs)
  from Cons.prems(3) obtain e s where p: "perform bwi c st = Some (e, s)"
    and r: "run bwi cs s = Some st'"
    by (auto split: option.splits)
  from perform_well_keyed [OF assms(1) Cons.prems(1) assms(2) Cons.prems(2) p]
  have s: "overwrite_by_pkeys s = Some ks" "pkeys_ok ks (items_buffer s)"
    and sub: "set (items_buffer s) \<subseteq> set (items_buffer st) \<union> set_option (request_of c)"
    by simp_all
  from Cons.IH [OF s r] sub show ?case by (cases "request_of c") auto
qed

lemma filter_key_single:
  "distinct (map f xs) \<Longrightarrow> r \<in> set xs \<Longrightarrow> filter (\<lambda>x. f x = f r) xs = [r]"
proof (induction xs)
  case Nil
  then show ?case by simp
next
  case (Cons a xs)
  show ?case
  proof (cases "a = r")
    case True
    with Cons.prems have "\<forall>x\<in>set xs. f x \<noteq> f r" by (auto simp: image_iff)
    then have "filter (\<lambda>x. f x = f r) xs = []" by (simp add: filter_empty_conv)
    with True show ?thesis by simp
  next
    case False
    with Cons.prems have "r \<in> set xs" "f a \<noteq> f r" by (auto simp: image_iff)
    with Cons show ?thesis by simp
  qed
qed

lemma perform_request:
  "request_of c = Some r \<Longrightarrow> perform bwi c st = Some (add_request_and_process bwi r st)"
  by (cases c) (auto simp: put_item_def delete_item_def)

lemma two_requests_same_tuple:
  fixes bwi :: "('v, 'c) batch_write_item"
  assumes "ks \<noteq> []" and "1 < fa"
      and "extract_pkey_values ks r1 = Inr vs" and "extract_pkey_values ks r2 = Inr vs"
  shows "add_request_and_process bwi r1 (BatchWriter tn cl fa (Some ks) slp)
           = (None, (BatchWriter tn cl fa (Some ks) slp)\<lparr>items_buffer := [r1]\<rparr>)"
    and "add_request_and_process bwi r2
           ((BatchWriter tn cl fa (Some ks) slp)\<lparr>items_buffer := [r1]\<rparr>)
           = (None, (BatchWriter tn cl fa (Some ks) slp)\<lparr>items_buffer := [r2]\<rparr>)"
  using assms
  by (simp_all add: add_request_and_process_def overwrite_scan_def BatchWriter_def
        remove_dup_pkeys_request_if_any_def remove_dup_loop.simps flush_if_needed_def)

text \<open>
  C1. With \<^verbatim>\<open>overwrite_by_pkeys\<close> a non-empty list of names and a faithful client,
  after any sequence of \<^verbatim>\<open>put_item\<close>, \<^verbatim>\<open>delete_item\<close> and \<^verbatim>\<open>__aexit__\<close> calls on
  a new writer:
  \<^item> every buffered request has the key attributes, no two have the same tuple of values,
    and every buffered request is the request of one of the calls;
  \<^item> for a call whose request no later call matches in its tuple (the newest request for
    that tuple), a buffered request with that tuple is the request of that call, and that
    request has not been lost: it is in the buffer, where it is then the only entry with
    its tuple, or it has been handed to the client;
  \<^item> two calls with the same tuple on a new writer, below the threshold, leave exactly
    one buffered entry, the request of the second call, and make no call of the client.
\<close>

theorem buffer_keys_distinct_newest_kept:
  fixes bwi :: "('v, 'c) batch_write_item"
  assumes "faithful bwi" and "ks \<noteq> []"
      and "run bwi calls (BatchWriter tn cl fa (Some ks) slp) = Some st'"
  shows "pkeys_ok ks (items_buffer st')
         \<and> set (items_buffer st') \<subseteq> {r. \<exists>c\<in>set calls. request_of c = Some r}
         \<and> (\<forall>before c after r.
               calls = before @ c # after \<and> request_of c = Some r \<and>
               (\<forall>d\<in>set after. \<forall>q\<in>set_option (request_of d).
                   extract_pkey_values ks q \<noteq> extract_pkey_values ks r) \<longrightarrow>
               (\<forall>x\<in>set (items_buffer st').
                   extract_pkey_values ks x = extract_pkey_values ks r \<longrightarrow> x = r)
               \<and> (\<forall>vs. extract_pkey_values ks r = Inr vs \<longrightarrow>
                     (r \<in> set (items_buffer st') \<or> r \<in> set (sent_requests st'))
                     \<and> (r \<in> set (items_buffer st') \<longrightarrow>
                          filter (\<lambda>x. extract_pkey_values ks x = Inr vs) (items_buffer st')
                            = [r])))
         \<and> (\<forall>c1 c2 r1 r2 vs.
               calls = [c1, c2] \<and> request_of c1 = Some r1 \<and> request_of c2 = Some r2 \<and>
               extract_pkey_values ks r1 = Inr vs \<and> extract_pkey_values ks r2 = Inr vs \<and>
               1 < fa \<longrightarrow>
               items_buffer st' = [r2] \<and> sent st' = [])"
proof -
  let ?init = "BatchWriter tn cl fa (Some ks) slp :: ('v, 'c) batch_writer"
  have init: "overwrite_by_pkeys ?init = Some ks" "pkeys_ok ks (items_buffer ?init)"
    by (simp_all add: BatchWriter_def pkeys_ok_def)
  have ok: "pkeys_ok ks (items_buffer st')"
    using run_well_keyed [OF assms(1,2) init assms(3)] by simp
  have only: "set (items_buffer st') \<subseteq> {r. \<exists>c\<in>set calls. request_of c = Some r}"
    using run_only_requested [OF assms(1,2) init assms(3)] by (simp add: BatchWriter_def)
  have newest: "(\<forall>x\<in>set (items_buffer st').
                   extract_pkey_values ks x = extract_pkey_values ks r \<longrightarrow> x = r)
               \<and> (\<forall>vs. extract_pkey_values ks r = Inr vs \<longrightarrow>
                     (r \<in> set (items_buffer st') \<or> r \<in> set (sent_requests st'))
                     \<and> (r \<in> set (items_buffer st') \<longrightarrow>
                          filter (\<lambda>x. extract_pkey_values ks x = Inr vs) (items_buffer st')
                            = [r]))"
    if split: "calls = before @ c # after" and c: "request_of c = Some r"
      and later: "\<forall>d\<in>set after. \<forall>q\<in>set_option (request_of d).
                   extract_pkey_values ks q \<noteq> extract_pkey_values ks r"
    for before c after r
  proof -
    from assms(3) split obtain s1 where s1: "run bwi before ?init = Some s1"
      and rest: "run bwi (c # after) s1 = Some st'"
      by (auto simp: run_append split: option.splits)
    from rest obtain e s2 where p: "perform bwi c s1 = Some (e, s2)"
      and r2: "run bwi after s2 = Some st'"
      by (auto split: option.splits)
    from run_well_keyed [OF assms(1,2) init s1]
    have ok1: "overwrite_by_pkeys s1 = Some ks" "pkeys_ok ks (items_buffer s1)" by simp_all
    from perform_well_keyed [OF assms(1) ok1(1) assms(2) ok1(2) p] c
    have ok2: "overwrite_by_pkeys s2 = Some ks" "pkeys_ok ks (items_buffer s2)"
      and new: "\<forall>x\<in>set (items_buffer s2).
                  extract_pkey_values ks x = extract_pkey_values ks r \<longrightarrow> x = r"
      by simp_all
    have a: "\<forall>x\<in>set (items_buffer st').
                   extract_pkey_values ks x = extract_pkey_values ks r \<longrightarrow> x = r"
      using run_keeps_newest [OF assms(1,2) ok2 new later r2] .
    have b: "r \<in> set (items_buffer st') \<or> r \<in> set (sent_requests st')"
      and d: "r \<in> set (items_buffer st') \<longrightarrow>
                filter (\<lambda>x. extract_pkey_values ks x = Inr vs) (items_buffer st') = [r]"
      if vs: "extract_pkey_values ks r = Inr vs" for vs
    proof -
      from perform_keeps [OF ok1(1) assms(2) ok1(2) p] c vs
      have "r \<in> set (items_buffer s2) \<union> set (sent_requests s2)" by blast
      from run_keeps_unmatched [OF assms(1,2) ok2 this later r2]
      show "r \<in> set (items_buffer st') \<or> r \<in> set (sent_requests st')" by simp
      from ok have "distinct (map (extract_pkey_values ks) (items_buffer st'))"
        by (simp add: pkeys_ok_def)
      from filter_key_single [OF this, of r] vs
      show "r \<in> set (items_buffer st') \<longrightarrow>
                filter (\<lambda>x. extract_pkey_values ks x = Inr vs) (items_buffer st') = [r]"
        by simp
    qed
    from a b d show ?thesis by blast
  qed
  have two: "items_buffer st' = [r2] \<and> sent st' = []"
    if "calls = [c1, c2]" "request_of c1 = Some r1" "request_of c2 = Some r2"
      "extract_pkey_values ks r1 = Inr vs" "extract_pkey_values ks r2 = Inr vs" "1 < fa"
    for c1 c2 r1 r2 vs
  proof -
    from two_requests_same_tuple [OF assms(2) that(6) that(4,5), of bwi tn cl slp]
      perform_request [OF that(2), of bwi] perform_request [OF that(3), of bwi]
    have "run bwi [c1, c2] ?init = Some (?init\<lparr>items_buffer := [r2]\<rparr>)"
      by simp
    with assms(3) that(1) show ?thesis by (auto simp: BatchWriter_def)
  qed
  from ok only newest two show ?thesis by blast
qed

theorem buffer_keys_distinct_newest_kept_witness:
  "faithful (accept_all :: (attr_value, unit) batch_write_item)
   \<and> run accept_all
       [Put_item [''K'' \<mapsto> N 1, ''V'' \<mapsto> S ''a''], Put_item [''K'' \<mapsto> N 1, ''V'' \<mapsto> S ''b'']]
       (BatchWriter ''t'' () 25 (Some [''K'']) 0)
     = Some ((BatchWriter ''t'' () 25 (Some [''K'']) 0)
               \<lparr>items_buffer := [PutRequest [''K'' \<mapsto> N 1, ''V'' \<mapsto> S ''b'']]\<rparr>)
   \<and> pkeys_ok [''K''] [PutRequest [''K'' \<mapsto> N 1, ''V'' \<mapsto> S ''b'']]"
proof -
  have f: "faithful (accept_all :: (attr_value, unit) batch_write_item)"
    by (simp add: faithful_def accept_all_def unprocessed_for_def)
  have r: "run accept_all
       [Put_item [''K'' \<mapsto> N 1, ''V'' \<mapsto> S ''a''], Put_item [''K'' \<mapsto> N 1, ''V'' \<mapsto> S ''b'']]
       (BatchWriter ''t'' () 25 (Some [''K'']) 0)
     = Some ((BatchWriter ''t'' () 25 (Some [''K'']) 0)
               \<lparr>items_buffer := [PutRequest [''K'' \<mapsto> N 1, ''V'' \<mapsto> S ''b'']]\<rparr>)"
    by (simp add: put_item_def add_request_and_process_def overwrite_scan_def BatchWriter_def
        remove_dup_pkeys_request_if_any_def remove_dup_loop.simps flush_if_needed_def)
  from buffer_keys_distinct_newest_kept [OF f _ r] f r show ?thesis
    by (simp add: BatchWriter_def)
qed

subsection \<open>Below the threshold\<close>

lemma collisions_from_cong:
  fixes seen seen' :: "'v request list"
  shows "extract_pkey_values ks ` set seen = extract_pkey_values ks ` set seen' \<Longrightarrow>
     collisions_from ks seen rs = collisions_from ks seen' rs"
proof (induction rs arbitrary: seen seen')
  case Nil
  then show ?case by simp
next
  case (Cons r rs)
  let ?key = "extract_pkey_values ks :: 'v request \<Rightarrow> error + 'v list"
  have "(\<exists>q\<in>set seen. ?key q = ?key r) \<longleftrightarrow> ?key r \<in> ?key ` set seen"
    by (metis image_iff)
  moreover have "(\<exists>q\<in>set seen'. ?key q = ?key r) \<longleftrightarrow> ?key r \<in> ?key ` set seen'"
    by (metis image_iff)
  moreover have "?key ` set (r # seen) = ?key ` set (r # seen')"
    using Cons.prems by simp
  then have "collisions_from ks (r # seen) rs = collisions_from ks (r # seen') rs"
    by (rule Cons.IH)
  ultimately show ?case using Cons.prems by simp
qed

lemma process_all_below_threshold_keyed:
  fixes bwi :: "('v, 'c) batch_write_item" and st :: "('v, 'c) batch_writer"
  assumes "ks \<noteq> []"
  shows "overwrite_by_pkeys st = Some ks \<Longrightarrow> pkeys_ok ks (items_buffer st) \<Longrightarrow>
         \<forall>r\<in>set rs. \<exists>vs. extract_pkey_values ks r = Inr vs \<Longrightarrow>
         int (length (items_buffer st)) + int (length rs) < flush_amount st \<Longrightarrow>
         \<exists>buf. process_all bwi rs st = (replicate (length rs) None, st\<lparr>items_buffer := buf\<rparr>)
           \<and> length buf + collisions_from ks (items_buffer st) rs
                = length (items_buffer st) + length rs"
proof (induction rs arbitrary: st)
  case Nil
  show ?case by (intro exI [of _ "items_buffer st"]) simp
next
  case (Cons r rs)
  define key where "key = (extract_pkey_values ks :: 'v request \<Rightarrow> error + 'v list)"
  from Cons.prems(3) obtain new where new: "key r = Inr new" by (auto simp: key_def)
  define b where "b = items_buffer st"
  define kept where "kept = filter (\<lambda>x. key x \<noteq> Inr new) b"
  define st1 where "st1 = st\<lparr>items_buffer := kept @ [r]\<rparr>"
  define d :: nat where "d = (if Inr new \<in> key ` set b then 1 else 0)"
  from Cons.prems(2) have dist: "distinct (map key b)" by (simp add: pkeys_ok_def key_def b_def)
  have len: "length kept = length b - d"
    unfolding kept_def d_def using dist by (rule length_filter_distinct_key)
  have d_le: "d \<le> length b" by (auto simp: d_def Suc_le_eq)
  have "length kept \<le> length b" by (simp add: kept_def)
  with Cons.prems(4) have below: "\<not> flush_amount st \<le> int (length (kept @ [r]))"
    by (simp add: b_def)
  have scan: "overwrite_scan st r = (None, kept)"
    using Cons.prems(1,2) assms new
    by (simp add: overwrite_scan_def remove_dup_pkeys_ok key_def kept_def b_def)
  have step: "add_request_and_process bwi r st = (None, st1)"
    using scan below by (simp add: add_request_and_process_def flush_if_needed_def st1_def)
  have ok1: "pkeys_ok ks (items_buffer st1)"
    using Cons.prems(2) new
    by (auto simp: pkeys_ok_def distinct_map_filter st1_def kept_def key_def b_def)
  have pk1: "overwrite_by_pkeys st1 = Some ks" using Cons.prems(1) by (simp add: st1_def)
  have "int (length (items_buffer st1)) + int (length rs) < flush_amount st1"
    using Cons.prems(4) \<open>length kept \<le> length b\<close> by (simp add: st1_def b_def)
  with Cons.IH [OF pk1 ok1] Cons.prems(3)
  obtain buf where buf: "process_all bwi rs st1 = (replicate (length rs) None, st1\<lparr>items_buffer := buf\<rparr>)"
    and lb: "length buf + collisions_from ks (items_buffer st1) rs = length (items_buffer st1) + length rs"
    by auto
  have "extract_pkey_values ks ` set (r # b) = extract_pkey_values ks ` set (kept @ [r])"
    using new by (auto simp: kept_def key_def)
  then have cc: "collisions_from ks (r # b) rs = collisions_from ks (kept @ [r]) rs"
    by (rule collisions_from_cong)
  have "(\<exists>q\<in>set b. key q = key r) \<longleftrightarrow> Inr new \<in> key ` set b"
    unfolding new by (metis image_iff)
  then have "collisions_from ks b (r # rs) = d + collisions_from ks (kept @ [r]) rs"
    using cc by (simp add: d_def key_def)
  with lb len d_le
  have "length buf + collisions_from ks b (r # rs) = length b + length (r # rs)"
    by (simp add: st1_def)
  moreover have "process_all bwi (r # rs) st
                   = (replicate (length (r # rs)) None, st\<lparr>items_buffer := buf\<rparr>)"
    using step buf by (simp add: st1_def)
  ultimately show ?case unfolding b_def by blast
qed

lemma process_all_below_threshold_plain:
  fixes bwi :: "('v, 'c) batch_write_item"
  shows "\<not> truthy (overwrite_by_pkeys st) \<Longrightarrow>
         int (length (items_buffer st)) + int (length rs) < flush_amount st \<Longrightarrow>
         process_all bwi rs st =
           (replicate (length rs) None, st\<lparr>items_buffer := items_buffer st @ rs\<rparr>)"
proof (induction rs arbitrary: st)
  case Nil
  then show ?case by simp
next
  case (Cons r rs)
  let ?st1 = "st\<lparr>items_buffer := items_buffer st @ [r]\<rparr>"
  from Cons.prems have "add_request_and_process bwi r st = (None, ?st1)"
    by (simp add: add_request_falsy flush_if_needed_def)
  moreover from Cons.prems have "process_all bwi rs ?st1 =
       (replicate (length rs) None, ?st1\<lparr>items_buffer := items_buffer ?st1 @ rs\<rparr>)"
    by (intro Cons.IH) simp_all
  ultimately show ?case by simp
qed

text \<open>
  C6. On a new writer, a sequence of at most \<open>flush_amount - 1\<close> calls (whose rows and
  keys have the key attributes, when key names are set) raises nothing and calls the client
  never: only the buffer has changed, and its length is the number of calls minus the
  number of collisions among them.
\<close>

theorem below_threshold_no_flush:
  fixes bwi :: "('v, 'c) batch_write_item"
  assumes "int (length requests) \<le> fa - 1"
      and "truthy pkeys \<longrightarrow>
             (\<forall>r\<in>set requests. \<exists>vs. extract_pkey_values (the pkeys) r = Inr vs)"
  shows "\<exists>buf. process_all bwi requests (BatchWriter tn cl fa pkeys slp)
                 = (replicate (length requests) None,
                    (BatchWriter tn cl fa pkeys slp)\<lparr>items_buffer := buf\<rparr>)
           \<and> sent (snd (process_all bwi requests (BatchWriter tn cl fa pkeys slp))) = []
           \<and> length buf = length requests - collisions pkeys requests"
proof (cases "truthy pkeys")
  case True
  then obtain ks where ks: "pkeys = Some ks" "ks \<noteq> []" by (cases pkeys) auto
  let ?init = "BatchWriter tn cl fa pkeys slp :: ('v, 'c) batch_writer"
  have "overwrite_by_pkeys ?init = Some ks" "pkeys_ok ks (items_buffer ?init)"
    "int (length (items_buffer ?init)) + int (length requests) < flush_amount ?init"
    using ks assms(1) by (simp_all add: BatchWriter_def pkeys_ok_def)
  moreover from assms(2) True ks
  have "\<forall>r\<in>set requests. \<exists>vs. extract_pkey_values ks r = Inr vs" by simp
  ultimately obtain buf where
    "process_all bwi requests ?init = (replicate (length requests) None, ?init\<lparr>items_buffer := buf\<rparr>)"
    "length buf + collisions_from ks (items_buffer ?init) requests
       = length (items_buffer ?init) + length requests"
    using process_all_below_threshold_keyed [OF ks(2), of ?init requests bwi] by blast
  then show ?thesis using True ks
    by (auto simp: collisions_def BatchWriter_def)
next
  case False
  let ?init = "BatchWriter tn cl fa pkeys slp :: ('v, 'c) batch_writer"
  have "\<not> truthy (overwrite_by_pkeys ?init)"
    "int (length (items_buffer ?init)) + int (length requests) < flush_amount ?init"
    using False assms(1) by (simp_all add: BatchWriter_def)
  from process_all_below_threshold_plain [OF this, of bwi] False
  show ?thesis by (simp add: collisions_def BatchWriter_def)
qed

theorem below_threshold_no_flush_witness:
  "process_all accept_all
     [PutRequest [''K'' \<mapsto> N 1, ''V'' \<mapsto> S ''a''], DeleteRequest [''K'' \<mapsto> N 2],
      PutRequest [''K'' \<mapsto> N 1, ''V'' \<mapsto> S ''b'']]
     (BatchWriter ''t'' () 25 (Some [''K'']) 0)
   = ([None, None, None],
      (BatchWriter ''t'' () 25 (Some [''K'']) 0)
        \<lparr>items_buffer := [DeleteRequest [''K'' \<mapsto> N 2],
                          PutRequest [''K'' \<mapsto> N 1, ''V'' \<mapsto> S ''b'']]\<rparr>)
   \<and> collisions (Some [''K''])
        [PutRequest [''K'' \<mapsto> N 1, ''V'' \<mapsto> S ''a''], DeleteRequest [''K'' \<mapsto> N 2],
         PutRequest [''K'' \<mapsto> N 1, ''V'' \<mapsto> S ''b'']] = 1"
  using below_threshold_no_flush [of "[PutRequest [''K'' \<mapsto> N 1, ''V'' \<mapsto> S ''a''], DeleteRequest [''K'' \<mapsto> N 2],
      PutRequest [''K'' \<mapsto> N 1, ''V'' \<mapsto> S ''b'']]" 25 "Some [''K'']" accept_all "''t''" "()" 0]
  by (simp add: collisions_def add_request_and_process_def overwrite_scan_def
        remove_dup_pkeys_request_if_any_def remove_dup_loop.simps flush_if_needed_def
        BatchWriter_def)

subsection \<open>Reaching the threshold\<close>

lemma flush_drains:
  assumes "drains bwi"
  shows "flush bwi st =
           (None, st\<lparr>items_buffer := slice_from (flush_amount st) (items_buffer st),
                      client := snd (bwi (client st) (table_name st)
                                  (slice_to (flush_amount st) (items_buffer st))),
                      sent := sent st @ [(table_name st,
                                slice_to (flush_amount st) (items_buffer st))]\<rparr>)"
  using assms by (simp add: flush_eq Let_def drains_def)

text \<open>
  C5. With a flush amount of 2 and a client that never raises and returns nothing as
  unprocessed, three \<^verbatim>\<open>put_item\<close> calls on a new writer (without key names, or with
  rows that have the key attributes, the first two with different tuples) make exactly one
  call of the client, with the first two requests in the order of the calls, and leave the
  third request alone in the buffer.
\<close>

theorem three_puts_one_flush:
  fixes bwi :: "('v, 'c) batch_write_item"
  assumes "drains bwi"
      and "truthy pkeys \<longrightarrow>
             (\<exists>v1 v2 v3. extract_pkey_values (the pkeys) (PutRequest i1) = Inr v1 \<and>
                         extract_pkey_values (the pkeys) (PutRequest i2) = Inr v2 \<and>
                         extract_pkey_values (the pkeys) (PutRequest i3) = Inr v3 \<and>
                         v1 \<noteq> v2)"
  shows "\<exists>st'. process_all bwi [PutRequest i1, PutRequest i2, PutRequest i3]
                 (BatchWriter tn cl 2 pkeys slp) = ([None, None, None], st')
           \<and> sent st' = [(tn, [PutRequest i1, PutRequest i2])]
           \<and> items_buffer st' = [PutRequest i3]"
proof (cases "truthy pkeys")
  case False
  then show ?thesis
    by (simp add: add_request_falsy flush_if_needed_def flush_drains [OF assms(1)]
        BatchWriter_def slice_to_def slice_from_def)
next
  case True
  then obtain ks where ks: "pkeys = Some ks" "ks \<noteq> []" by (cases pkeys) auto
  with assms(2) True obtain v1 v2 v3 where
    v: "lookup_all ks i1 = Inr v1" "lookup_all ks i2 = Inr v2" "lookup_all ks i3 = Inr v3"
       "v1 \<noteq> v2"
    by auto
  have s0: "remove_dup_loop ks w 0 [] = (None, [])" for w :: "'v list"
    by (subst remove_dup_loop.simps) simp
  have s1: "remove_dup_loop ks v2 0 [PutRequest i1] = (None, [PutRequest i1])"
    using v by (simp add: remove_dup_loop.simps)
  show ?thesis
    using ks v s0 s1
    by (simp add: add_request_and_process_def overwrite_scan_def
        remove_dup_pkeys_request_if_any_def flush_if_needed_def flush_drains [OF assms(1)]
        BatchWriter_def slice_to_def slice_from_def)
qed

theorem three_puts_one_flush_witness:
  "process_all accept_all
     [PutRequest [''K'' \<mapsto> N 1], PutRequest [''K'' \<mapsto> N 2], PutRequest [''K'' \<mapsto> N 3]]
     (BatchWriter ''t'' () 2 (Some [''K'']) 0)
   = ([None, None, None],
      (BatchWriter ''t'' () 2 (Some [''K'']) 0)
        \<lparr>items_buffer := [PutRequest [''K'' \<mapsto> N 3]],
          sent := [(''t'', [PutRequest [''K'' \<mapsto> N 1], PutRequest [''K'' \<mapsto> N 2]])]\<rparr>)"
proof -
  have d: "drains (accept_all :: (attr_value, unit) batch_write_item)"
    by (simp add: drains_def accept_all_def raised_def unprocessed_for_def)
  from three_puts_one_flush [OF d, of "Some [''K'']" "[''K'' \<mapsto> N 1]" "[''K'' \<mapsto> N 2]" "[''K'' \<mapsto> N 3]" "''t''" "()" 0]
  show ?thesis
    by (simp add: add_request_and_process_def overwrite_scan_def
        remove_dup_pkeys_request_if_any_def remove_dup_loop.simps flush_if_needed_def
        flush_def accept_all_def BatchWriter_def slice_to_def slice_from_def)
qed

end
